theory Spec2Isabelle
  imports Complex_Main
begin

section \<open>NeighborSearchRules: a shallow embedding of nearest\_neighbor\_rules\_impl.hpp\<close>

text \<open>
  The C++ class \<^verbatim>\<open>NeighborSearchRules<SortPolicy, MetricType, TreeType>\<close> is embedded as
  functions over an explicit state.  A \<^verbatim>\<open>double\<close> is a HOL \<open>real\<close> (rounding, infinities
  and NaN are outside the model); a \<^verbatim>\<open>size_t\<close> is a \<open>nat\<close> below \<open>2 ^ 64\<close> with the
  wrap-around of \<^verbatim>\<open>size_t() - 1\<close> and \<^verbatim>\<open>n_rows - 1\<close> written out.  Undefined behaviour
  and armadillo's bounds-check exceptions are values of the type \<open>error\<close>.
\<close>

subsection \<open>Scalars\<close>

definition DBL_MAX :: real where
  "DBL_MAX = 2 ^ 1024 - 2 ^ 971"

definition SIZE_MOD :: nat where
  "SIZE_MOD = 2 ^ 64"

text \<open>Subtraction of two \<^verbatim>\<open>size_t\<close> values, wrapping below zero.\<close>

definition size_t_sub :: "nat \<Rightarrow> nat \<Rightarrow> nat" where
  "size_t_sub a b = (a + SIZE_MOD - b) mod SIZE_MOD"

text \<open>The value \<^verbatim>\<open>(size_t() - 1)\<close> that \<^verbatim>\<open>SortDistance()\<close> returns for "do not insert".\<close>

definition NO_INSERT :: nat where
  "NO_INSERT = size_t_sub 0 1"

datatype error = NullPointer | OutOfBounds

text \<open>Sequencing of fallible steps: the first failure is the result.\<close>

definition ebind :: "error + 'a \<Rightarrow> ('a \<Rightarrow> error + 'b) \<Rightarrow> error + 'b" where
  "ebind m f = (case m of Inl e \<Rightarrow> Inl e | Inr x \<Rightarrow> f x)"

subsection \<open>Matrices\<close>

text \<open>
  An \<^verbatim>\<open>arma::Mat\<close> is a column-major block of memory: element \<open>(r, c)\<close> lives at offset
  \<open>c * n_rows + r\<close>, and \<^verbatim>\<open>colptr(c)\<close> is the offset \<open>c * n_rows\<close>.
\<close>

record 'a Mat =
  n_rows :: nat
  n_cols :: nat
  mem :: "'a list"

definition colptr :: "'a Mat \<Rightarrow> nat \<Rightarrow> nat" where
  "colptr M c = c * n_rows M"

text \<open>\<^verbatim>\<open>M(r, c)\<close>: element access with armadillo's bounds check.\<close>

definition elem_at :: "'a Mat \<Rightarrow> nat \<Rightarrow> nat \<Rightarrow> error + 'a" where
  "elem_at M r c =
     (if r < n_rows M \<and> c < n_cols M \<and> colptr M c + r < length (mem M)
      then Inr (mem M ! (colptr M c + r)) else Inl OutOfBounds)"

text \<open>\<^verbatim>\<open>M(r, c) = v\<close>.\<close>

definition elem_set :: "'a Mat \<Rightarrow> nat \<Rightarrow> nat \<Rightarrow> 'a \<Rightarrow> error + 'a Mat" where
  "elem_set M r c v =
     (if r < n_rows M \<and> c < n_cols M \<and> colptr M c + r < length (mem M)
      then Inr (M\<lparr>mem := (mem M)[colptr M c + r := v]\<rparr>) else Inl OutOfBounds)"

text \<open>\<^verbatim>\<open>M.unsafe_col(c)\<close>: the \<open>n_rows\<close> elements from \<^verbatim>\<open>colptr(c)\<close> on; no bounds check in
  the source, so a column outside the memory block is undefined behaviour.\<close>

definition unsafe_col :: "'a Mat \<Rightarrow> nat \<Rightarrow> error + 'a list" where
  "unsafe_col M c =
     (if colptr M c + n_rows M \<le> length (mem M)
      then Inr (take (n_rows M) (drop (colptr M c) (mem M))) else Inl OutOfBounds)"

text \<open>\<^verbatim>\<open>memmove(base + dst, base + src, len elements)\<close> inside one memory block; the
  source region is read before anything is written.\<close>

definition memmove :: "'a list \<Rightarrow> nat \<Rightarrow> nat \<Rightarrow> nat \<Rightarrow> error + 'a list" where
  "memmove m dst src len =
     (if dst + len \<le> length m \<and> src + len \<le> length m
      then Inr (map (\<lambda>i. if dst \<le> i \<and> i < dst + len then m ! (src + (i - dst)) else m ! i)
                  [0..<length m])
      else Inl OutOfBounds)"

subsection \<open>Trees\<close>

text \<open>
  Tree nodes live in a store addressed by node identifiers, so that \<^verbatim>\<open>Parent()\<close>,
  \<^verbatim>\<open>Child(i)\<close> and the \<^verbatim>\<open>void*\<close> kept by \<^verbatim>\<open>LastDistanceNode()\<close> are identifiers and
  \<open>None\<close> is \<^verbatim>\<open>NULL\<close>.  \<open>Stat\<close> is the node's \<^verbatim>\<open>NeighborSearchStat\<close>.
\<close>

type_synonym node_id = nat

record NeighborSearchStat =
  FirstBound :: real
  SecondBound :: real
  Bound :: real
  LastDistanceNode :: "node_id option"
  LastDistance :: real

record TreeNode =
  Parent :: "node_id option"
  Children :: "node_id list"
  Points :: "nat list"
  FurthestDescendantDistance :: real
  Stat :: NeighborSearchStat

definition NumPoints :: "TreeNode \<Rightarrow> nat" where
  "NumPoints n = length (Points n)"

definition Point :: "TreeNode \<Rightarrow> nat \<Rightarrow> error + nat" where
  "Point n i = (if i < NumPoints n then Inr (Points n ! i) else Inl OutOfBounds)"

definition NumChildren :: "TreeNode \<Rightarrow> nat" where
  "NumChildren n = length (Children n)"

subsection \<open>The sort policy, the metric and the rule object\<close>

text \<open>
  \<^verbatim>\<open>SortPolicy\<close> is a template parameter of the class: a record of its static functions.
  The two geometric bounds take the node by identifier.
\<close>

record 'p SortPolicy =
  SortDistance :: "real list \<Rightarrow> real \<Rightarrow> nat"
  IsBetter :: "real \<Rightarrow> real \<Rightarrow> bool"
  BestPointToNodeDistance :: "'p \<Rightarrow> node_id \<Rightarrow> real"
  BestNodeToNodeDistance :: "node_id \<Rightarrow> node_id \<Rightarrow> real"
  WorstDistance :: real
  BestDistance :: real
  CombineBest :: "real \<Rightarrow> real \<Rightarrow> real"
  CombineWorst :: "real \<Rightarrow> real \<Rightarrow> real"

text \<open>
  What the constructor binds and the search never changes: the two point sets (a column
  is a point of type \<open>'p\<close>), whether they are the same object
  (\<^verbatim>\<open>&querySet == &referenceSet\<close>), the metric, the policy and the two
  \<^verbatim>\<open>TreeTraits\<close> flags of the tree type.
\<close>

record 'p Rules =
  referenceSet :: "'p list"
  querySet :: "'p list"
  sameSet :: bool
  metric :: "'p \<Rightarrow> 'p \<Rightarrow> real"
  policy :: "'p SortPolicy"
  FirstPointIsCentroid :: bool
  HasSelfChildren :: bool

text \<open>
  What the search mutates: the two result matrices, the one-slot memo of \<^verbatim>\<open>BaseCase()\<close>
  and the nodes (through their statistics).  \<open>metricEvals\<close> is not a member of the
  class: it counts the calls of \<^verbatim>\<open>metric.Evaluate()\<close>, so that "no metric evaluation"
  can be stated.
\<close>

record SearchState =
  neighbors :: "nat Mat"
  distances :: "real Mat"
  lastQueryIndex :: nat
  lastReferenceIndex :: nat
  lastBaseCase :: real
  nodes :: "node_id \<Rightarrow> TreeNode"
  metricEvals :: nat

text \<open>\<^verbatim>\<open>querySet.unsafe_col(i)\<close> of a point set.\<close>

definition point_col :: "'p list \<Rightarrow> nat \<Rightarrow> error + 'p" where
  "point_col S i = (if i < length S then Inr (S ! i) else Inl OutOfBounds)"

subsection \<open>InsertNeighbor\<close>

text \<open>
  \<^verbatim>\<open>int len = (distances.n_rows - 1) - pos\<close> is taken only when
  \<^verbatim>\<open>pos < distances.n_rows - 1\<close>; both \<^verbatim>\<open>memmove\<close> calls shift \<open>len\<close> elements of the
  query's column from \<open>pos\<close> to \<open>pos + 1\<close>.  A length that does not fit the 32-bit
  \<^verbatim>\<open>int\<close> makes the byte count of \<^verbatim>\<open>memmove\<close> meaningless, which is a failure here.
\<close>

definition int_of_size_t :: "nat \<Rightarrow> error + nat" where
  "int_of_size_t x = (if x < 2 ^ 31 then Inr x else Inl OutOfBounds)"

definition InsertNeighbor ::
  "nat \<Rightarrow> nat \<Rightarrow> nat \<Rightarrow> real \<Rightarrow> SearchState \<Rightarrow> error + SearchState" where
  "InsertNeighbor queryIndex pos neighbor distance s =
     ebind
       (if pos < size_t_sub (n_rows (distances s)) 1
        then
          ebind (int_of_size_t (size_t_sub (size_t_sub (n_rows (distances s)) 1) pos)) (\<lambda>len.
           ebind (memmove (mem (distances s)) (colptr (distances s) queryIndex + (pos + 1))
                    (colptr (distances s) queryIndex + pos) len)
             (\<lambda>dm. ebind (memmove (mem (neighbors s)) (colptr (neighbors s) queryIndex + (pos + 1))
                            (colptr (neighbors s) queryIndex + pos) len)
               (\<lambda>nm. Inr (s\<lparr>distances := (distances s)\<lparr>mem := dm\<rparr>,
                              neighbors := (neighbors s)\<lparr>mem := nm\<rparr>\<rparr>))))
        else Inr s)
       (\<lambda>s1. ebind (elem_set (distances s1) pos queryIndex distance)
          (\<lambda>D. ebind (elem_set (neighbors s1) pos queryIndex neighbor)
             (\<lambda>N. Inr (s1\<lparr>distances := D, neighbors := N\<rparr>))))"

subsection \<open>BaseCase\<close>

definition BaseCase ::
  "'p Rules \<Rightarrow> nat \<Rightarrow> nat \<Rightarrow> SearchState \<Rightarrow> error + (real \<times> SearchState)" where
  "BaseCase R queryIndex referenceIndex s =
     (if sameSet R \<and> queryIndex = referenceIndex then Inr (0, s)
      else if lastQueryIndex s = queryIndex \<and> lastReferenceIndex s = referenceIndex
        then Inr (lastBaseCase s, s)
      else
        ebind (point_col (querySet R) queryIndex) (\<lambda>qp.
        ebind (point_col (referenceSet R) referenceIndex) (\<lambda>rp.
          let distance = metric R qp rp; s0 = s\<lparr>metricEvals := metricEvals s + 1\<rparr> in
          ebind (unsafe_col (distances s0) queryIndex) (\<lambda>queryDist.
            let insertPosition = SortDistance (policy R) queryDist distance in
            ebind (if insertPosition \<noteq> NO_INSERT
                   then InsertNeighbor queryIndex insertPosition referenceIndex distance s0
                   else Inr s0)
              (\<lambda>s1. Inr (distance,
                          s1\<lparr>lastQueryIndex := queryIndex,
                             lastReferenceIndex := referenceIndex,
                             lastBaseCase := distance\<rparr>))))))"

subsection \<open>Writing a node's statistic\<close>

definition update_Stat ::
  "node_id \<Rightarrow> (NeighborSearchStat \<Rightarrow> NeighborSearchStat) \<Rightarrow> SearchState \<Rightarrow> SearchState" where
  "update_Stat n f s = s\<lparr>nodes := (nodes s)(n := (nodes s n)\<lparr>Stat := f (Stat (nodes s n))\<rparr>)\<rparr>"

text \<open>The row index \<^verbatim>\<open>distances.n_rows - 1\<close> of the worst candidate.\<close>

definition last_row :: "'a Mat \<Rightarrow> nat" where
  "last_row M = size_t_sub (n_rows M) 1"

subsection \<open>Score and Rescore, query point against reference node\<close>

text \<open>
  The local \<^verbatim>\<open>double baseCase\<close> is assigned only inside
  \<^verbatim>\<open>if (TreeTraits<TreeType>::HasSelfChildren)\<close>.  When that flag is false the variable is
  read without having been written; \<open>indeterminate\<close> stands for the value it then holds.
\<close>

definition Score_point ::
  "'p Rules \<Rightarrow> real \<Rightarrow> nat \<Rightarrow> node_id \<Rightarrow> SearchState \<Rightarrow> error + (real \<times> SearchState)" where
  "Score_point R indeterminate queryIndex referenceNode s =
     ebind
       (if FirstPointIsCentroid R then
          ebind
            (if HasSelfChildren R then
               ebind
                 (case Parent (nodes s referenceNode) of
                    None \<Rightarrow>
                      ebind (Point (nodes s referenceNode) 0) (\<lambda>rp. BaseCase R queryIndex rp s)
                  | Some p \<Rightarrow>
                      ebind (Point (nodes s referenceNode) 0) (\<lambda>rp.
                      ebind (Point (nodes s p) 0) (\<lambda>pp.
                        if rp = pp then Inr (LastDistance (Stat (nodes s p)), s)
                        else BaseCase R queryIndex rp s)))
                 (\<lambda>(baseCase, s1).
                    Inr (baseCase, update_Stat referenceNode (\<lambda>st. st\<lparr>LastDistance := baseCase\<rparr>) s1))
             else Inr (indeterminate, s))
            (\<lambda>(baseCase, s2).
               Inr (CombineBest (policy R) baseCase
                      (FurthestDescendantDistance (nodes s2 referenceNode)), s2))
        else
          ebind (point_col (querySet R) queryIndex) (\<lambda>queryPoint.
            Inr (BestPointToNodeDistance (policy R) queryPoint referenceNode, s)))
       (\<lambda>(distance, s3).
          ebind (elem_at (distances s3) (last_row (distances s3)) queryIndex) (\<lambda>bestDistance.
            Inr (if IsBetter (policy R) distance bestDistance then distance else DBL_MAX, s3)))"

definition Rescore_point ::
  "'p Rules \<Rightarrow> nat \<Rightarrow> node_id \<Rightarrow> real \<Rightarrow> SearchState \<Rightarrow> error + real" where
  "Rescore_point R queryIndex referenceNode oldScore s =
     (if oldScore = DBL_MAX then Inr oldScore
      else
        ebind (elem_at (distances s) (last_row (distances s)) queryIndex) (\<lambda>bestDistance.
          Inr (if IsBetter (policy R) oldScore bestDistance then oldScore else DBL_MAX)))"

subsection \<open>CalculateBound\<close>

text \<open>
  The loop over \<^verbatim>\<open>i < queryNode.NumPoints()\<close> reads \<^verbatim>\<open>queryNode.Point(i)\<close> in order, so
  it is a recursion over the list of the node's points; the accumulator is
  \<open>(bestPointDistance, worstPointDistance)\<close>.
\<close>

fun pointLoop ::
  "'p SortPolicy \<Rightarrow> real Mat \<Rightarrow> nat list \<Rightarrow> real \<times> real \<Rightarrow> error + (real \<times> real)" where
  "pointLoop P D [] acc = Inr acc"
| "pointLoop P D (p # ps) (bestPointDistance, worstPointDistance) =
     ebind (elem_at D (last_row D) p) (\<lambda>distance.
       pointLoop P D ps
         (if IsBetter P distance bestPointDistance then distance else bestPointDistance,
          if IsBetter P worstPointDistance distance then distance else worstPointDistance))"

text \<open>
  The loop over \<^verbatim>\<open>i < queryNode.NumChildren()\<close>; the accumulator is
  \<open>(worstChildBound, bestAdjustedChildBound)\<close>.
\<close>

fun childLoop ::
  "'p SortPolicy \<Rightarrow> (node_id \<Rightarrow> TreeNode) \<Rightarrow> real \<Rightarrow> node_id list \<Rightarrow> real \<times> real \<Rightarrow> real \<times> real" where
  "childLoop P N queryMaxDescendantDistance [] acc = acc"
| "childLoop P N queryMaxDescendantDistance (c # cs) (worstChildBound, bestAdjustedChildBound) =
     (let firstBound = FirstBound (Stat (N c));
          secondBound = SecondBound (Stat (N c));
          childMaxDescendantDistance = FurthestDescendantDistance (N c);
          adjustedBound = CombineWorst P secondBound
            (2 * (queryMaxDescendantDistance - childMaxDescendantDistance))
      in childLoop P N queryMaxDescendantDistance cs
           (if IsBetter P worstChildBound firstBound then firstBound else worstChildBound,
            if IsBetter P adjustedBound bestAdjustedChildBound then adjustedBound
            else bestAdjustedChildBound))"

definition CalculateBound ::
  "'p Rules \<Rightarrow> node_id \<Rightarrow> SearchState \<Rightarrow> error + (real \<times> SearchState)" where
  "CalculateBound R queryNode s =
     (let P = policy R; q = nodes s queryNode in
      ebind (pointLoop P (distances s) (Points q) (WorstDistance P, BestDistance P))
        (\<lambda>(bestPointDistance, worstPointDistance).
          let queryMaxDescendantDistance = FurthestDescendantDistance q;
              (worstChildBound, bestAdjustedChildBound) =
                 childLoop P (nodes s) queryMaxDescendantDistance (Children q)
                   (BestDistance P, WorstDistance P);
              firstBound = (if IsBetter P worstPointDistance worstChildBound
                            then worstChildBound else worstPointDistance);
              secondBound = CombineWorst P bestPointDistance (2 * queryMaxDescendantDistance);
              fourthBound = (case Parent q of
                               Some p \<Rightarrow> FirstBound (Stat (nodes s p))
                             | None \<Rightarrow> WorstDistance P);
              fifthBound = (case Parent q of
                              Some p \<Rightarrow> SecondBound (Stat (nodes s p))
                            | None \<Rightarrow> WorstDistance P);
              interA = (if IsBetter P firstBound fourthBound then firstBound else fourthBound);
              interB = (if IsBetter P bestAdjustedChildBound secondBound
                        then bestAdjustedChildBound else secondBound);
              interC = (if IsBetter P interB fifthBound then interB else fifthBound);
              newBound = (if IsBetter P interA interC then interA else interC)
          in Inr (newBound,
                  update_Stat queryNode
                    (\<lambda>st. st\<lparr>FirstBound := interA, SecondBound := interC, Bound := newBound\<rparr>) s)))"

subsection \<open>Score and Rescore, query node against reference node\<close>

text \<open>
  The four attempts to find a cached base case, in the order of the source; \<open>None\<close> is
  \<^verbatim>\<open>alreadyDone == false\<close>, \<open>Some d\<close> is \<^verbatim>\<open>alreadyDone == true\<close> with \<^verbatim>\<open>baseCase == d\<close>.
  The first two attempts test their pointer against \<^verbatim>\<open>NULL\<close>; the last two dereference
  the parent's \<^verbatim>\<open>LastDistanceNode()\<close> without a test.
\<close>

definition cachedBaseCase :: "SearchState \<Rightarrow> node_id \<Rightarrow> node_id \<Rightarrow> error + real option" where
  "cachedBaseCase s queryNode referenceNode =
     (let q = nodes s queryNode; r = nodes s referenceNode;
          lastRef = LastDistanceNode (Stat q);
          lastQuery = LastDistanceNode (Stat r)
      in
      ebind (case lastRef of
               None \<Rightarrow> Inr None
             | Some l \<Rightarrow>
                 ebind (Point r 0) (\<lambda>a. ebind (Point (nodes s l) 0) (\<lambda>b.
                   Inr (if a = b then Some (LastDistance (Stat q)) else None))))
        (\<lambda>c1.
      ebind (case lastQuery of
               None \<Rightarrow> Inr c1
             | Some l \<Rightarrow>
                 ebind (Point q 0) (\<lambda>a. ebind (Point (nodes s l) 0) (\<lambda>b.
                   Inr (if a = b then Some (LastDistance (Stat r)) else c1))))
        (\<lambda>c2.
      ebind (case Parent q of
               None \<Rightarrow> Inr c2
             | Some p \<Rightarrow>
                 ebind (Point (nodes s p) 0) (\<lambda>a. ebind (Point q 0) (\<lambda>b.
                   if a = b then
                     (case LastDistanceNode (Stat (nodes s p)) of
                        None \<Rightarrow> Inl NullPointer
                      | Some lastParentRef \<Rightarrow>
                          ebind (Point (nodes s lastParentRef) 0) (\<lambda>c. ebind (Point r 0) (\<lambda>d.
                            Inr (if c = d then Some (LastDistance (Stat (nodes s p))) else c2))))
                   else Inr c2)))
        (\<lambda>c3.
      (case Parent r of
         None \<Rightarrow> Inr c3
       | Some p \<Rightarrow>
           ebind (Point (nodes s p) 0) (\<lambda>a. ebind (Point r 0) (\<lambda>b.
             if a = b then
               (case LastDistanceNode (Stat (nodes s p)) of
                  None \<Rightarrow> Inl NullPointer
                | Some lastParentRef \<Rightarrow>
                    ebind (Point (nodes s lastParentRef) 0) (\<lambda>c. ebind (Point q 0) (\<lambda>d.
                      Inr (if c = d then Some (LastDistance (Stat (nodes s p))) else c3))))
             else Inr c3)))))))"

definition Score_node ::
  "'p Rules \<Rightarrow> node_id \<Rightarrow> node_id \<Rightarrow> SearchState \<Rightarrow> error + (real \<times> SearchState)" where
  "Score_node R queryNode referenceNode s =
     ebind
       (if FirstPointIsCentroid R then
          ebind (if HasSelfChildren R then cachedBaseCase s queryNode referenceNode
                 else Inr None)
            (\<lambda>cached.
          ebind (Point (nodes s queryNode) 0) (\<lambda>qp.
          ebind (Point (nodes s referenceNode) 0) (\<lambda>rp.
          ebind (case cached of
                   None \<Rightarrow> BaseCase R qp rp s
                 | Some baseCase \<Rightarrow>
                     Inr (baseCase, s\<lparr>lastQueryIndex := qp, lastReferenceIndex := rp,
                                      lastBaseCase := baseCase\<rparr>))
            (\<lambda>(baseCase, s1).
               let distance = CombineBest (policy R) baseCase
                     (FurthestDescendantDistance (nodes s1 queryNode) +
                      FurthestDescendantDistance (nodes s1 referenceNode));
                   s2 = update_Stat queryNode
                     (\<lambda>st. st\<lparr>LastDistanceNode := Some referenceNode,
                               LastDistance := baseCase\<rparr>) s1;
                   s3 = update_Stat referenceNode
                     (\<lambda>st. st\<lparr>LastDistanceNode := Some queryNode,
                               LastDistance := baseCase\<rparr>) s2
               in Inr (distance, s3)))))
        else Inr (BestNodeToNodeDistance (policy R) queryNode referenceNode, s))
       (\<lambda>(distance, s4).
          ebind (CalculateBound R queryNode s4) (\<lambda>(bestDistance, s5).
            Inr (if IsBetter (policy R) distance bestDistance then distance else DBL_MAX, s5)))"

definition Rescore_node ::
  "'p Rules \<Rightarrow> node_id \<Rightarrow> node_id \<Rightarrow> real \<Rightarrow> SearchState \<Rightarrow> error + (real \<times> SearchState)" where
  "Rescore_node R queryNode referenceNode oldScore s =
     (if oldScore = DBL_MAX then Inr (oldScore, s)
      else
        ebind (CalculateBound R queryNode s) (\<lambda>(bestDistance, s1).
          Inr (if IsBetter (policy R) oldScore bestDistance then oldScore else DBL_MAX, s1)))"

section \<open>A sort policy and the shape of a well-formed search state\<close>

text \<open>
  Modelled from the spec: the nearest-neighbour sort policy.  The file that implements it
  is not among the sources; the spec gives an ascending order (smaller is better), the
  worst possible distance and the best possible distance, \<open>CombineBest\<close> taking a radius
  off a base-case distance, \<open>CombineWorst\<close> widening a bound by a correction term, and
  \<open>SortDistance\<close> answering the insertion position when the distance beats the current
  worst entry of the candidate list and "do not insert" otherwise.  The two geometric
  bounds need a bounding volume, which no node of this model has: they are the trivial
  bound 0.
\<close>

definition NearestNeighborSort :: "'p SortPolicy" where
  "NearestNeighborSort =
     \<lparr>SortDistance = (\<lambda>list newDistance.
          if list = [] \<or> \<not> newDistance < last list then NO_INSERT
          else length (takeWhile (\<lambda>x. \<not> newDistance < x) list)),
      IsBetter = (\<lambda>fst snd. fst < snd),
      BestPointToNodeDistance = (\<lambda>p n. 0),
      BestNodeToNodeDistance = (\<lambda>q r. 0),
      WorstDistance = DBL_MAX,
      BestDistance = 0,
      CombineBest = (\<lambda>a b. max (a - b) 0),
      CombineWorst = (\<lambda>a b. a + b)\<rparr>"

text \<open>
  A result matrix is well formed when its memory block has \<open>n_rows * n_cols\<close> elements and
  the number of rows fits an \<^verbatim>\<open>int\<close>; the two result matrices of a search have the same
  shape (\<open>k\<close> rows, one column per query point).
\<close>

definition Mat_ok :: "'a Mat \<Rightarrow> bool" where
  "Mat_ok M \<longleftrightarrow> length (mem M) = n_rows M * n_cols M \<and> n_rows M < 2 ^ 31"

definition results_ok :: "SearchState \<Rightarrow> bool" where
  "results_ok s \<longleftrightarrow>
     Mat_ok (distances s) \<and> Mat_ok (neighbors s) \<and>
     n_rows (neighbors s) = n_rows (distances s) \<and>
     n_cols (neighbors s) = n_cols (distances s)"

text \<open>
  What the caller of \<^verbatim>\<open>InsertNeighbor\<close> needs of \<^verbatim>\<open>SortDistance\<close>: its answer is "do not
  insert" or a row of the list it was given.
\<close>

definition SortDistance_in_range :: "'p SortPolicy \<Rightarrow> bool" where
  "SortDistance_in_range P \<longleftrightarrow>
     (\<forall>list d. SortDistance P list d = NO_INSERT \<or> SortDistance P list d < length list)"

text \<open>
  The memory block after a ranked insertion of \<open>v\<close> at row \<open>pos\<close> of the column that
  starts at offset \<open>base\<close> and has \<open>k\<close> rows.
\<close>

definition shifted :: "'a list \<Rightarrow> nat \<Rightarrow> nat \<Rightarrow> nat \<Rightarrow> 'a \<Rightarrow> 'a list" where
  "shifted m base k pos v =
     map (\<lambda>i. if i = base + pos then v
              else if base + pos < i \<and> i < base + k then m ! (i - 1)
              else m ! i) [0..<length m]"

section \<open>A concrete search, used to exercise the statements\<close>

text \<open>
  Five points on the real line with the metric \<open>\<bar>a - b\<bar>\<close>, searched against themselves
  for \<open>k = 3\<close> neighbours.  \<open>ex_state\<close> is a state in the middle of the search: column \<open>q\<close>
  of the two matrices holds the candidates found so far for query point \<open>q\<close>.  The tree
  has a root holding point 0, whose first child is a self-child (it holds point 0 too).
\<close>

definition ex_points :: "real list" where
  "ex_points = [0, 1, 3, 7, 12]"

definition ex_Rules :: "real Rules" where
  "ex_Rules =
     \<lparr>referenceSet = ex_points, querySet = ex_points, sameSet = True,
      metric = (\<lambda>a b. \<bar>a - b\<bar>), policy = NearestNeighborSort,
      FirstPointIsCentroid = True, HasSelfChildren = True\<rparr>"

definition ex_stat :: NeighborSearchStat where
  "ex_stat =
     \<lparr>FirstBound = DBL_MAX, SecondBound = DBL_MAX, Bound = DBL_MAX,
      LastDistanceNode = None, LastDistance = 0\<rparr>"

definition ex_node :: "node_id option \<Rightarrow> node_id list \<Rightarrow> nat \<Rightarrow> real \<Rightarrow> TreeNode" where
  "ex_node p cs pt fdd =
     \<lparr>Parent = p, Children = cs, Points = [pt], FurthestDescendantDistance = fdd,
      Stat = ex_stat\<rparr>"

definition ex_nodes :: "node_id \<Rightarrow> TreeNode" where
  "ex_nodes =
     (\<lambda>n. ex_node None [] 0 0)
       (0 := ex_node None [1, 2] 0 12,
        1 := ex_node (Some 0) [3, 4] 0 3,
        2 := ex_node (Some 0) [5] 3 5,
        3 := ex_node (Some 1) [] 1 0,
        4 := ex_node (Some 1) [] 2 0,
        5 := ex_node (Some 2) [] 4 0)"

definition ex_state :: SearchState where
  "ex_state =
     \<lparr>neighbors = \<lparr>n_rows = 3, n_cols = 5,
                    mem = [1, 3, 4,  0, 2, 3,  1, 0, 4,  2, 4, 0,  3, 2, 1]\<rparr>,
      distances = \<lparr>n_rows = 3, n_cols = 5,
                    mem = [1, 7, 12,  1, 2, 6,  2, 3, 9,  4, 5, 7,  5, 9, 11]\<rparr>,
      lastQueryIndex = 5, lastReferenceIndex = 5, lastBaseCase = 0,
      nodes = ex_nodes, metricEvals = 0\<rparr>"

text \<open>
  The state that \<^verbatim>\<open>BaseCase(0, 2)\<close> leaves when called in \<open>ex_state\<close>: reference point 2,
  at distance 3 from query point 0, has entered column 0 at row 1, and the memo holds
  the pair and its distance.
\<close>

definition ex_state_after :: SearchState where
  "ex_state_after =
     \<lparr>neighbors = \<lparr>n_rows = 3, n_cols = 5,
                    mem = [1, 2, 3,  0, 2, 3,  1, 0, 4,  2, 4, 0,  3, 2, 1]\<rparr>,
      distances = \<lparr>n_rows = 3, n_cols = 5,
                    mem = [1, 3, 7,  1, 2, 6,  2, 3, 9,  4, 5, 7,  5, 9, 11]\<rparr>,
      lastQueryIndex = 0, lastReferenceIndex = 2, lastBaseCase = 3,
      nodes = ex_nodes, metricEvals = 1\<rparr>"

section \<open>The bound update in the words of the specification\<close>

text \<open>
  The policy's choice between two bounds, and the current \<open>k\<close>-th candidate distance
  \<open>D_p[k]\<close> of a query point (the last row of its column).
\<close>

definition best :: "'p SortPolicy \<Rightarrow> real \<Rightarrow> real \<Rightarrow> real" where
  "best P a b = (if IsBetter P a b then a else b)"

definition worst :: "'p SortPolicy \<Rightarrow> real \<Rightarrow> real \<Rightarrow> real" where
  "worst P a b = (if IsBetter P a b then b else a)"

definition kth_distance :: "real Mat \<Rightarrow> nat \<Rightarrow> real" where
  "kth_distance D p = mem D ! (colptr D p + (n_rows D - 1))"

text \<open>
  The five quantities and their combination, following the text of the bound update
  (section 4.4 of the specification) and not the code: each quantity is a fold of \<open>best\<close>
  or \<open>worst\<close> over the node's points or children.  \<open>childBound\<close> is the cached value of a
  child that quantity (1) takes the worst of.
\<close>

definition five_bound_update ::
  "(NeighborSearchStat \<Rightarrow> real) \<Rightarrow> 'p Rules \<Rightarrow> node_id \<Rightarrow> SearchState \<Rightarrow> real \<times> SearchState" where
  "five_bound_update childBound R queryNode s =
     (let P = policy R; q = nodes s queryNode;
          kth = map (kth_distance (distances s)) (Points q);
          radius = FurthestDescendantDistance q;
          bound1 = worst P (foldl (worst P) (BestDistance P) kth)
                     (foldl (worst P) (BestDistance P)
                        (map (\<lambda>c. childBound (Stat (nodes s c))) (Children q)));
          bound2 = CombineWorst P (foldl (\<lambda>acc d. best P d acc) (WorstDistance P) kth)
                     (2 * radius);
          bound3 = foldl (\<lambda>acc b. best P b acc) (WorstDistance P)
                     (map (\<lambda>c. CombineWorst P (SecondBound (Stat (nodes s c)))
                                (2 * (radius - FurthestDescendantDistance (nodes s c))))
                        (Children q));
          bound4 = (case Parent q of
                      Some p \<Rightarrow> FirstBound (Stat (nodes s p)) | None \<Rightarrow> WorstDistance P);
          bound5 = (case Parent q of
                      Some p \<Rightarrow> SecondBound (Stat (nodes s p)) | None \<Rightarrow> WorstDistance P);
          firstBound' = best P bound1 bound4;
          intermediate = best P bound3 bound2;
          secondBound' = best P intermediate bound5;
          newBound = best P firstBound' secondBound'
      in (newBound,
          update_Stat queryNode
            (\<lambda>st. st\<lparr>FirstBound := firstBound', SecondBound := secondBound',
                      Bound := newBound\<rparr>) s))"

text \<open>Section 4.4 words quantity (1) with the children's cached \<open>bound\<close> values.\<close>

definition UpdateBound_spec :: "'p Rules \<Rightarrow> node_id \<Rightarrow> SearchState \<Rightarrow> real \<times> SearchState" where
  "UpdateBound_spec = five_bound_update Bound"

text \<open>
  A second tree over the same points: a root without points of its own, whose only child
  holds the query points 0 and 1.
\<close>

definition ex_nodes2 :: "node_id \<Rightarrow> TreeNode" where
  "ex_nodes2 =
     (\<lambda>n. ex_node None [] 0 0)
       (0 := \<lparr>Parent = None, Children = [1], Points = [], FurthestDescendantDistance = 12,
               Stat = ex_stat\<rparr>,
        1 := \<lparr>Parent = Some 0, Children = [], Points = [0, 1], FurthestDescendantDistance = 1,
               Stat = ex_stat\<rparr>)"

definition ex_state2 :: SearchState where
  "ex_state2 = ex_state\<lparr>nodes := ex_nodes2\<rparr>"

text \<open>The state after \<^verbatim>\<open>CalculateBound\<close> has been called on node 1 in \<open>ex_state2\<close>.\<close>

definition ex_state3 :: SearchState where
  "ex_state3 =
     update_Stat 1 (\<lambda>st. st\<lparr>FirstBound := 12, SecondBound := 8, Bound := 8\<rparr>) ex_state2"

section \<open>Candidate lists\<close>

text \<open>
  Column \<open>c\<close> of a matrix as a list (what \<^verbatim>\<open>unsafe_col(c)\<close> views), and the list a ranked
  insertion at row \<open>pos\<close> turns a candidate list into: the entries before \<open>pos\<close>, the new
  entry, and the entries from \<open>pos\<close> on without the last one.
\<close>

definition column :: "'a Mat \<Rightarrow> nat \<Rightarrow> 'a list" where
  "column M c = take (n_rows M) (drop (colptr M c) (mem M))"

definition ranked_insert :: "nat \<Rightarrow> 'a \<Rightarrow> 'a list \<Rightarrow> 'a list" where
  "ranked_insert pos v xs = take pos xs @ v # take (length xs - Suc pos) (drop pos xs)"

text \<open>A list of distances is sorted by the policy when no later entry is better than an
  earlier one; a state is sorted when every column of \<open>distances\<close> is.\<close>

definition sorted_by :: "'p SortPolicy \<Rightarrow> real list \<Rightarrow> bool" where
  "sorted_by P xs \<longleftrightarrow> (\<forall>i j. i < j \<longrightarrow> j < length xs \<longrightarrow> \<not> IsBetter P (xs ! j) (xs ! i))"

definition lists_sorted :: "'p SortPolicy \<Rightarrow> SearchState \<Rightarrow> bool" where
  "lists_sorted P s \<longleftrightarrow>
     (\<forall>q < n_cols (distances s). sorted_by P (column (distances s) q))"

text \<open>
  Modelled from the spec: what \<^verbatim>\<open>SortDistance\<close> answers on a sorted candidate list.  Its
  implementation belongs to the sort policy, whose file is not among the sources.  The
  spec has it determine whether the distance beats the current worst entry of the list
  and, if so, give the rank to insert at: a row of the list, with no earlier entry
  worse than the distance and no later entry better.
\<close>

definition SortDistance_ranks :: "'p SortPolicy \<Rightarrow> bool" where
  "SortDistance_ranks P \<longleftrightarrow>
     (\<forall>list d. sorted_by P list \<longrightarrow> SortDistance P list d \<noteq> NO_INSERT \<longrightarrow>
        SortDistance P list d < length list \<and>
        IsBetter P d (last list) \<and>
        (\<forall>i < SortDistance P list d. \<not> IsBetter P d (list ! i)) \<and>
        (\<forall>i. SortDistance P list d \<le> i \<longrightarrow> i < length list \<longrightarrow> \<not> IsBetter P (list ! i) d))"

text \<open>
  Modelled from the spec: "better" is an ordering of distances (ascending for the
  nearest neighbour, descending for the furthest): nothing is better than something
  better than itself, and "not better than" is transitive.
\<close>

definition IsBetter_ordering :: "'p SortPolicy \<Rightarrow> bool" where
  "IsBetter_ordering P \<longleftrightarrow>
     (\<forall>a b. IsBetter P a b \<longrightarrow> \<not> IsBetter P b a) \<and>
     (\<forall>a b c. \<not> IsBetter P a b \<longrightarrow> \<not> IsBetter P b c \<longrightarrow> \<not> IsBetter P a c)"

text \<open>
  Whether a call of \<^verbatim>\<open>BaseCase\<close> reaches \<^verbatim>\<open>InsertNeighbor\<close>: it is not elided, not
  answered from the memo, and \<^verbatim>\<open>SortDistance\<close> gives a position.
\<close>

definition BaseCase_inserts :: "'p Rules \<Rightarrow> nat \<Rightarrow> nat \<Rightarrow> SearchState \<Rightarrow> bool" where
  "BaseCase_inserts R q r s \<longleftrightarrow>
     \<not> (sameSet R \<and> q = r) \<and>
     \<not> (lastQueryIndex s = q \<and> lastReferenceIndex s = r) \<and>
     SortDistance (policy R) (column (distances s) q)
       (metric R (querySet R ! q) (referenceSet R ! r)) \<noteq> NO_INSERT"

text \<open>
  A sequence of \<^verbatim>\<open>BaseCase\<close> calls, given as (query index, reference index) pairs.  Beside
  the final state it answers, in order, one record per insertion made: the query
  index, the entry (distance, reference index) inserted, and the entry that was in the
  last row and was shifted out.
\<close>

type_synonym insertion = "nat \<times> (real \<times> nat) \<times> (real \<times> nat)"

fun BaseCase_run ::
  "'p Rules \<Rightarrow> (nat \<times> nat) list \<Rightarrow> SearchState \<Rightarrow> error + (insertion list \<times> SearchState)" where
  "BaseCase_run R [] s = Inr ([], s)"
| "BaseCase_run R ((q, r) # cs) s =
     ebind (BaseCase R q r s) (\<lambda>(d, s').
     ebind (BaseCase_run R cs s') (\<lambda>(ins, s'').
       Inr ((if BaseCase_inserts R q r s
             then [(q, (d, r), (last (column (distances s) q), last (column (neighbors s) q)))]
             else []) @ ins, s'')))"

text \<open>No entry that was shifted out of a query's list is inserted into that list later.\<close>

definition no_reappearance :: "insertion list \<Rightarrow> bool" where
  "no_reappearance ins \<longleftrightarrow>
     (\<forall>i j. i < j \<longrightarrow> j < length ins \<longrightarrow> fst (ins ! i) = fst (ins ! j) \<longrightarrow>
        fst (snd (ins ! j)) \<noteq> snd (snd (ins ! i)))"

section \<open>Tightness of bounds along a search\<close>

text \<open>\<open>tighter P a b\<close>: the bound \<open>a\<close> is at least as tight as \<open>b\<close>, that is, \<open>b\<close> is not
  better than \<open>a\<close> under the policy.\<close>

definition tighter :: "'p SortPolicy \<Rightarrow> real \<Rightarrow> real \<Rightarrow> bool" where
  "tighter P a b \<longleftrightarrow> \<not> IsBetter P b a"

text \<open>
  Modelled from the spec: \<^verbatim>\<open>CombineWorst\<close> widens a bound by a correction term (its
  implementation belongs to the sort policy, whose file is not among the sources); of
  two bounds widened by the same term, the one that was at least as tight still is.
\<close>

definition CombineWorst_monotone :: "'p SortPolicy \<Rightarrow> bool" where
  "CombineWorst_monotone P \<longleftrightarrow>
     (\<forall>a b c. tighter P a b \<longrightarrow> tighter P (CombineWorst P a c) (CombineWorst P b c))"

text \<open>The first and the second bound that \<^verbatim>\<open>CalculateBound\<close> would store on a node now.\<close>

definition next_first :: "'p Rules \<Rightarrow> node_id \<Rightarrow> SearchState \<Rightarrow> real" where
  "next_first R n s = FirstBound (Stat (nodes (snd (five_bound_update FirstBound R n s)) n))"

definition next_second :: "'p Rules \<Rightarrow> node_id \<Rightarrow> SearchState \<Rightarrow> real" where
  "next_second R n s = SecondBound (Stat (nodes (snd (five_bound_update FirstBound R n s)) n))"

text \<open>\<open>same_tree\<close> relates two states whose trees differ at most in the statistics.\<close>

definition same_tree :: "SearchState \<Rightarrow> SearchState \<Rightarrow> bool" where
  "same_tree s s' \<longleftrightarrow>
     (\<forall>n. Parent (nodes s' n) = Parent (nodes s n) \<and>
          Children (nodes s' n) = Children (nodes s n) \<and>
          Points (nodes s' n) = Points (nodes s n) \<and>
          FurthestDescendantDistance (nodes s' n) = FurthestDescendantDistance (nodes s n))"

text \<open>
  The invariant of the stored bounds.  On every node whose points are columns of the
  distance matrix (the nodes on which \<^verbatim>\<open>CalculateBound\<close> can return; the store may hold
  other nodes, such as those of a reference tree with more points than there are
  queries), what \<^verbatim>\<open>CalculateBound\<close> would store now is at least as tight as the first and
  second bound stored there; and on every node the stored bound is no tighter than the
  best of the stored first and second bound.  It holds when all three are the policy's
  worst distance, as at the start of a search.
\<close>

definition bounds_loose :: "'p Rules \<Rightarrow> SearchState \<Rightarrow> bool" where
  "bounds_loose R s \<longleftrightarrow>
     Mat_ok (distances s) \<and>
     (\<forall>n. (\<forall>p \<in> set (Points (nodes s n)). p < n_cols (distances s)) \<longrightarrow>
          tighter (policy R) (next_first R n s) (FirstBound (Stat (nodes s n))) \<and>
          tighter (policy R) (next_second R n s) (SecondBound (Stat (nodes s n)))) \<and>
     (\<forall>n. tighter (policy R)
            (best (policy R) (FirstBound (Stat (nodes s n))) (SecondBound (Stat (nodes s n))))
            (Bound (Stat (nodes s n))))"

text \<open>
  One step of a search, as far as the bounds can see it: either a call of
  \<^verbatim>\<open>CalculateBound\<close> that returns, or any other change of the state that keeps the tree
  and the three bounds of every node and in which no query point's worst candidate
  distance gets worse (a base case, a ranked insertion, the cached distances that the
  two \<^verbatim>\<open>Score\<close> functions write).
\<close>

inductive search_step :: "'p Rules \<Rightarrow> SearchState \<Rightarrow> SearchState \<Rightarrow> bool" for R where
  calculate: "CalculateBound R n s = Inr (b, s') \<Longrightarrow> search_step R s s'"
| candidates:
    "same_tree s s' \<Longrightarrow>
     (\<forall>n. FirstBound (Stat (nodes s' n)) = FirstBound (Stat (nodes s n)) \<and>
          SecondBound (Stat (nodes s' n)) = SecondBound (Stat (nodes s n)) \<and>
          Bound (Stat (nodes s' n)) = Bound (Stat (nodes s n))) \<Longrightarrow>
     Mat_ok (distances s') \<Longrightarrow> n_cols (distances s') = n_cols (distances s) \<Longrightarrow>
     (\<forall>p < n_cols (distances s).
        tighter (policy R) (kth_distance (distances s') p) (kth_distance (distances s) p)) \<Longrightarrow>
     search_step R s s'"

text \<open>The state \<open>ex_state3\<close> after query point 0 has found reference point 2 (its
  candidate lists are those of \<open>ex_state_after\<close>).\<close>

definition ex_state4 :: SearchState where
  "ex_state4 =
     ex_state3\<lparr>distances := distances ex_state_after, neighbors := neighbors ex_state_after\<rparr>"

section \<open>Properties\<close>

subsection \<open>Arithmetic of sizes and of the column-major layout\<close>

lemma size_t_sub_simple: "b \<le> a \<Longrightarrow> a < SIZE_MOD \<Longrightarrow> size_t_sub a b = a - b"
proof -
  assume a: "b \<le> a" "a < SIZE_MOD"
  then have eq: "a + SIZE_MOD - b = (a - b) + SIZE_MOD" by simp
  have "a - b < SIZE_MOD" using a by simp
  then show ?thesis unfolding size_t_sub_def eq by simp
qed

lemma SIZE_MOD_big: "(2::nat) ^ 31 < SIZE_MOD"
  by (simp add: SIZE_MOD_def)

lemma NO_INSERT_val: "NO_INSERT = 2 ^ 64 - 1"
  by (simp add: NO_INSERT_def size_t_sub_def SIZE_MOD_def)

lemma last_row_ok: "0 < n_rows M \<Longrightarrow> n_rows M < 2 ^ 31 \<Longrightarrow> last_row M = n_rows M - 1"
  using SIZE_MOD_big by (simp add: last_row_def size_t_sub_simple)

lemma memmove_shift:
  assumes "base + k \<le> length m" "pos + 1 < k"
  shows "memmove m (base + (pos + 1)) (base + pos) (k - 1 - pos) =
         Inr (map (\<lambda>i. if base + pos < i \<and> i < base + k then m ! (i - 1) else m ! i) [0..<length m])"
  using assms by (auto simp: memmove_def intro!: nth_equalityI)

lemma col_in_block: "c < nc \<Longrightarrow> r < (k::nat) \<Longrightarrow> c * k + r < k * nc"
proof -
  assume a: "c < nc" "r < k"
  then have "(c + 1) * k \<le> nc * k" by (intro mult_le_mono1) simp
  with a show ?thesis by (simp add: mult.commute)
qed

lemma col_end_in_block: "c < nc \<Longrightarrow> c * k + k \<le> (k::nat) * nc"
proof -
  assume a: "c < nc"
  then have "(c + 1) * k \<le> nc * k" by (intro mult_le_mono1) simp
  then show ?thesis by (simp add: mult.commute)
qed

lemma shifted_last:
  "base + pos < length m \<Longrightarrow> pos + 1 = k \<Longrightarrow> m[base + pos := v] = shifted m base k pos v"
  by (auto simp: shifted_def nth_list_update intro!: nth_equalityI)

lemma shifted_move:
  "base + k \<le> length m \<Longrightarrow> pos + 1 < k \<Longrightarrow>
   (map (\<lambda>i. if base + pos < i \<and> i < base + k then m ! (i - 1) else m ! i) [0..<length m])
     [base + pos := v] = shifted m base k pos v"
  by (auto simp: shifted_def nth_list_update intro!: nth_equalityI)

lemma InsertNeighbor_eq:
  assumes ok: "results_ok s" and q: "queryIndex < n_cols (distances s)"
    and p: "pos < n_rows (distances s)"
  shows "InsertNeighbor queryIndex pos neighbor distance s =
         Inr (s\<lparr>distances := (distances s)\<lparr>mem :=
                   shifted (mem (distances s)) (colptr (distances s) queryIndex)
                     (n_rows (distances s)) pos distance\<rparr>,
                neighbors := (neighbors s)\<lparr>mem :=
                   shifted (mem (neighbors s)) (colptr (neighbors s) queryIndex)
                     (n_rows (neighbors s)) pos neighbor\<rparr>\<rparr>)"
proof -
  let ?D = "distances s" and ?N = "neighbors s"
  let ?k = "n_rows ?D"
  from ok have len: "length (mem ?D) = ?k * n_cols ?D" "length (mem ?N) = ?k * n_cols ?D"
    and k: "?k < 2 ^ 31" and nk: "n_rows ?N = ?k" "n_cols ?N = n_cols ?D"
    by (simp_all add: results_ok_def Mat_ok_def)
  from k have kM: "?k < SIZE_MOD" using SIZE_MOD_big by simp
  from p have lr: "size_t_sub ?k 1 = ?k - 1" using kM by (simp add: size_t_sub_simple)
  have inblk: "queryIndex * ?k + ?k \<le> ?k * n_cols ?D" using q by (rule col_end_in_block)
  have inblk2: "queryIndex * ?k + pos < ?k * n_cols ?D" using q p by (rule col_in_block)
  show ?thesis
  proof (cases "pos < ?k - 1")
    case True
    then have l2: "size_t_sub (?k - 1) pos = ?k - 1 - pos" using kM by (simp add: size_t_sub_simple)
    have l3: "?k - 1 - pos < 2 ^ 31" using k by simp
    from True have p1: "pos + 1 < ?k" by simp
    have m1: "memmove (mem ?D) (queryIndex * ?k + (pos + 1)) (queryIndex * ?k + pos) (?k - 1 - pos) =
         Inr (map (\<lambda>i. if queryIndex * ?k + pos < i \<and> i < queryIndex * ?k + ?k then mem ?D ! (i - 1) else mem ?D ! i) [0..<length (mem ?D)])"
      using inblk p1 by (intro memmove_shift) (simp_all add: len)
    have m2: "memmove (mem ?N) (queryIndex * ?k + (pos + 1)) (queryIndex * ?k + pos) (?k - 1 - pos) =
         Inr (map (\<lambda>i. if queryIndex * ?k + pos < i \<and> i < queryIndex * ?k + ?k then mem ?N ! (i - 1) else mem ?N ! i) [0..<length (mem ?N)])"
      using inblk p1 by (intro memmove_shift) (simp_all add: len)
    have s1: "(map (\<lambda>i. if queryIndex * ?k + pos < i \<and> i < queryIndex * ?k + ?k then mem ?D ! (i - 1) else mem ?D ! i) [0..<length (mem ?D)])[queryIndex * ?k + pos := distance]
        = shifted (mem ?D) (queryIndex * ?k) ?k pos distance"
      using inblk p1 by (intro shifted_move) (simp_all add: len)
    have s2: "(map (\<lambda>i. if queryIndex * ?k + pos < i \<and> i < queryIndex * ?k + ?k then mem ?N ! (i - 1) else mem ?N ! i) [0..<length (mem ?N)])[queryIndex * ?k + pos := neighbor]
        = shifted (mem ?N) (queryIndex * ?k) ?k pos neighbor"
      using inblk p1 by (intro shifted_move) (simp_all add: len)
    show ?thesis
      using True p q inblk2 s1 s2 lr l2 l3 m1 m2
      by (simp add: InsertNeighbor_def int_of_size_t_def ebind_def colptr_def nk elem_set_def len)
  next
    case False
    with p have pe: "pos + 1 = ?k" by simp
    have s1: "(mem ?D)[queryIndex * ?k + pos := distance] = shifted (mem ?D) (queryIndex * ?k) ?k pos distance"
      using inblk2 pe by (intro shifted_last) (simp_all add: len)
    have s2: "(mem ?N)[queryIndex * ?k + pos := neighbor] = shifted (mem ?N) (queryIndex * ?k) ?k pos neighbor"
      using inblk2 pe by (intro shifted_last) (simp_all add: len)
    show ?thesis
      using False p q inblk2 lr s1 s2
      by (simp add: InsertNeighbor_def ebind_def colptr_def nk elem_set_def len)
  qed
qed

lemma col_before: "c < q \<Longrightarrow> r < (k::nat) \<Longrightarrow> c * k + r < q * k"
proof -
  assume a: "c < q" "r < k"
  then have "(c + 1) * k \<le> q * k" by (intro mult_le_mono1) simp
  with a show ?thesis by simp
qed

lemma col_after: "q < c \<Longrightarrow> q * k + k \<le> c * (k::nat) + r"
proof -
  assume a: "q < c"
  then have "(q + 1) * k \<le> c * k" by (intro mult_le_mono1) simp
  then show ?thesis by simp
qed

lemma length_shifted: "length (shifted m base k pos v) = length m"
  by (simp add: shifted_def)

lemma nth_shifted:
  "i < length m \<Longrightarrow> shifted m base k pos v ! i =
     (if i = base + pos then v else if base + pos < i \<and> i < base + k then m ! (i - 1) else m ! i)"
  by (simp add: shifted_def)

lemma colptr_mem_update: "colptr (M\<lparr>mem := x\<rparr>) c = colptr M c"
  by (simp add: colptr_def)

lemma elem_at_shifted_other:
  assumes "c \<noteq> q" "pos < k" "n_rows M = k"
  shows "elem_at (M\<lparr>mem := shifted (mem M) (colptr M q) k pos v\<rparr>) r c = elem_at M r c"
proof (cases "r < n_rows M \<and> c < n_cols M \<and> colptr M c + r < length (mem M)")
  case True
  then have r: "r < k" using assms(3) by simp
  have "colptr M c + r \<noteq> colptr M q + pos \<and>
        \<not> (colptr M q + pos < colptr M c + r \<and> colptr M c + r < colptr M q + k)"
  proof (cases "c < q")
    case True
    from col_before [OF True r] show ?thesis by (simp add: colptr_def assms(3))
  next
    case False
    with assms have "q < c" by simp
    from col_after [OF this, of k r] assms(2) show ?thesis by (simp add: colptr_def assms(3))
  qed
  with True show ?thesis by (auto simp add: elem_at_def length_shifted nth_shifted colptr_mem_update)
next
  case False
  then show ?thesis by (auto simp add: elem_at_def length_shifted colptr_def)
qed

lemma elem_at_shifted_same:
  assumes ok: "Mat_ok M" and q: "q < n_cols M" and p: "pos < k" and r: "r < k"
    and k: "n_rows M = k"
  shows "elem_at (M\<lparr>mem := shifted (mem M) (colptr M q) k pos v\<rparr>) r q =
         (if r < pos then elem_at M r q else if r = pos then Inr v else elem_at M (r - 1) q)"
proof -
  from ok k have len: "length (mem M) = k * n_cols M" by (simp add: Mat_ok_def)
  have inb: "\<And>r'. r' < k \<Longrightarrow> q * k + r' < k * n_cols M"
    using q by (rule col_in_block)
  have "q * k + r - Suc 0 = q * k + (r - Suc 0)" if "pos < r" using that by simp
  then show ?thesis
    using r p q inb [of r] inb [of "r - 1"]
    by (auto simp add: elem_at_def length_shifted nth_shifted colptr_def len k)
qed

lemma elem_at_ok:
  "Mat_ok M \<Longrightarrow> r < n_rows M \<Longrightarrow> c < n_cols M \<Longrightarrow> elem_at M r c = Inr (mem M ! (c * n_rows M + r))"
  using col_in_block [of c "n_cols M" r "n_rows M"] by (simp add: elem_at_def Mat_ok_def colptr_def)

subsection \<open>Ranked insertion\<close>

text \<open>
  Claim C7.  For a well-formed pair of result matrices, a query index that names a column
  and a position in \<open>[0, k - 1]\<close>, \<^verbatim>\<open>InsertNeighbor\<close> returns; in the query's column of
  both matrices the rows below \<open>position\<close> keep their entries, row \<open>position\<close> holds the new
  distance and reference index, and every later row \<open>r\<close> holds what row \<open>r - 1\<close> held (so
  the entries of rows \<open>position .. k - 2\<close> moved down by one and the entry of row \<open>k - 1\<close>
  is gone); every other column, the memo, the nodes and the shape of the matrices are
  unchanged.
\<close>

theorem InsertNeighbor_shifts:
  assumes "results_ok s" and "queryIndex < n_cols (distances s)"
    and "position < n_rows (distances s)"
  shows "\<exists>s'. InsertNeighbor queryIndex position referenceIndex distance s = Inr s' \<and>
     results_ok s' \<and>
     n_rows (distances s') = n_rows (distances s) \<and>
     n_cols (distances s') = n_cols (distances s) \<and>
     (\<forall>r < n_rows (distances s).
        elem_at (distances s') r queryIndex =
          (if r < position then elem_at (distances s) r queryIndex
           else if r = position then Inr distance
           else elem_at (distances s) (r - 1) queryIndex) \<and>
        elem_at (neighbors s') r queryIndex =
          (if r < position then elem_at (neighbors s) r queryIndex
           else if r = position then Inr referenceIndex
           else elem_at (neighbors s) (r - 1) queryIndex)) \<and>
     (\<forall>c r. c \<noteq> queryIndex \<longrightarrow>
        elem_at (distances s') r c = elem_at (distances s) r c \<and>
        elem_at (neighbors s') r c = elem_at (neighbors s) r c) \<and>
     lastQueryIndex s' = lastQueryIndex s \<and>
     lastReferenceIndex s' = lastReferenceIndex s \<and>
     lastBaseCase s' = lastBaseCase s \<and>
     nodes s' = nodes s \<and> metricEvals s' = metricEvals s"
proof -
  from assms(1) have okD: "Mat_ok (distances s)" and okN: "Mat_ok (neighbors s)"
    and nr: "n_rows (neighbors s) = n_rows (distances s)"
    and nc: "n_cols (neighbors s) = n_cols (distances s)"
    by (simp_all add: results_ok_def)
  show ?thesis
    unfolding InsertNeighbor_eq [OF assms]
    using assms(2,3) okD okN nr nc
    apply (intro exI conjI allI impI)
    apply (rule refl)
    apply (simp_all add: results_ok_def Mat_ok_def length_shifted elem_at_shifted_other
        elem_at_shifted_same [OF okD] elem_at_shifted_same [OF okN])
    done
qed

theorem InsertNeighbor_shifts_witness:
  "results_ok ex_state \<and> (0::nat) < n_cols (distances ex_state) \<and>
   (1::nat) < n_rows (distances ex_state) \<and>
   (\<exists>s'. InsertNeighbor 0 1 2 3 ex_state = Inr s' \<and>
      elem_at (distances s') 0 0 = Inr 1 \<and> elem_at (neighbors s') 0 0 = Inr 1 \<and>
      elem_at (distances s') 1 0 = Inr 3 \<and> elem_at (neighbors s') 1 0 = Inr 2 \<and>
      elem_at (distances s') 2 0 = Inr 7 \<and> elem_at (neighbors s') 2 0 = Inr 3 \<and>
      elem_at (distances s') 2 1 = Inr 6 \<and> elem_at (neighbors s') 0 4 = Inr 3)"
proof -
  have h: "results_ok ex_state" "(0::nat) < n_cols (distances ex_state)"
    "(1::nat) < n_rows (distances ex_state)"
    by (simp_all add: results_ok_def Mat_ok_def ex_state_def)
  from InsertNeighbor_shifts [OF h, of 2 3] obtain s' where
    r: "InsertNeighbor 0 1 2 3 ex_state = Inr s'"
    and col: "\<forall>r < n_rows (distances ex_state).
        elem_at (distances s') r 0 =
          (if r < 1 then elem_at (distances ex_state) r 0
           else if r = 1 then Inr 3
           else elem_at (distances ex_state) (r - 1) 0) \<and>
        elem_at (neighbors s') r 0 =
          (if r < 1 then elem_at (neighbors ex_state) r 0
           else if r = 1 then Inr 2
           else elem_at (neighbors ex_state) (r - 1) 0)"
    and oth: "\<forall>c r. c \<noteq> 0 \<longrightarrow>
        elem_at (distances s') r c = elem_at (distances ex_state) r c \<and>
        elem_at (neighbors s') r c = elem_at (neighbors ex_state) r c"
    by blast
  have nr: "n_rows (distances ex_state) = 3" by (simp add: ex_state_def)
  from col [rule_format, of 0] col [rule_format, of 1] col [rule_format, of 2]
    oth [rule_format, of 1 2] oth [rule_format, of 4 0]
  have "elem_at (distances s') 0 0 = Inr 1 \<and> elem_at (neighbors s') 0 0 = Inr 1 \<and>
      elem_at (distances s') 1 0 = Inr 3 \<and> elem_at (neighbors s') 1 0 = Inr 2 \<and>
      elem_at (distances s') 2 0 = Inr 7 \<and> elem_at (neighbors s') 2 0 = Inr 3 \<and>
      elem_at (distances s') 2 1 = Inr 6 \<and> elem_at (neighbors s') 0 4 = Inr 3"
    by (simp add: nr) (simp add: ex_state_def elem_at_def colptr_def)
  with r h show ?thesis by blast
qed

subsection \<open>The base case\<close>

lemma InsertNeighbor_Inr_bounds:
  "InsertNeighbor q pos nb d s = Inr s' \<Longrightarrow>
   pos < n_rows (distances s) \<and> q < n_cols (distances s)"
  by (auto simp: InsertNeighbor_def ebind_def elem_set_def split: sum.splits if_splits)

lemma results_ok_frame:
  "results_ok (s\<lparr>metricEvals := e\<rparr>) = results_ok s"
  "results_ok (s\<lparr>lastQueryIndex := a\<rparr>) = results_ok s"
  "results_ok (s\<lparr>lastReferenceIndex := b\<rparr>) = results_ok s"
  "results_ok (s\<lparr>lastBaseCase := c\<rparr>) = results_ok s"
  "results_ok (s\<lparr>nodes := n\<rparr>) = results_ok s"
  by (simp_all add: results_ok_def)

lemma InsertNeighbor_neighbors_from:
  assumes ok: "results_ok s" and ins: "InsertNeighbor q pos nb d s = Inr s'"
    and x: "elem_at (neighbors s') row c = Inr x"
  shows "(c = q \<and> x = nb) \<or> (\<exists>row'. elem_at (neighbors s) row' c = Inr x)"
proof -
  from InsertNeighbor_Inr_bounds [OF ins]
  have p: "pos < n_rows (distances s)" and q: "q < n_cols (distances s)" by simp_all
  from ok have okN: "Mat_ok (neighbors s)" and nr: "n_rows (neighbors s) = n_rows (distances s)"
    and nc: "n_cols (neighbors s) = n_cols (distances s)"
    by (simp_all add: results_ok_def)
  from ins have N: "neighbors s' = (neighbors s)\<lparr>mem :=
      shifted (mem (neighbors s)) (colptr (neighbors s) q) (n_rows (neighbors s)) pos nb\<rparr>"
    unfolding InsertNeighbor_eq [OF ok q p] by auto
  show ?thesis
  proof (cases "c = q")
    case False
    with x show ?thesis
      unfolding N using p by (auto simp: elem_at_shifted_other nr)
  next
    case True
    have r: "row < n_rows (neighbors s)"
      using x unfolding N by (auto simp: elem_at_def split: if_splits)
    from x show ?thesis
      unfolding N True
      using elem_at_shifted_same [OF okN, of q pos "n_rows (neighbors s)" row nb] q p r
      by (auto simp: nr nc split: if_splits)
  qed
qed

lemma BaseCase_elided: "sameSet R \<Longrightarrow> BaseCase R i i s = Inr (0, s)"
  by (simp add: BaseCase_def)

lemma BaseCase_memo:
  "\<not> (sameSet R \<and> q = r) \<Longrightarrow> lastQueryIndex s = q \<Longrightarrow> lastReferenceIndex s = r \<Longrightarrow>
   BaseCase R q r s = Inr (lastBaseCase s, s)"
  by (auto simp add: BaseCase_def)

text \<open>The path of \<^verbatim>\<open>BaseCase\<close> that evaluates the metric, when it returns.\<close>

lemma BaseCase_fresh_Inr:
  assumes b: "BaseCase R q r s = Inr (d, s')"
    and ne: "\<not> (sameSet R \<and> q = r)"
    and nm: "\<not> (lastQueryIndex s = q \<and> lastReferenceIndex s = r)"
  obtains col s1 where
    "q < length (querySet R)" "r < length (referenceSet R)"
    "d = metric R (querySet R ! q) (referenceSet R ! r)"
    "unsafe_col (distances s) q = Inr col"
    "(SortDistance (policy R) col d = NO_INSERT \<and> s1 = s\<lparr>metricEvals := metricEvals s + 1\<rparr>) \<or>
     (SortDistance (policy R) col d \<noteq> NO_INSERT \<and>
      InsertNeighbor q (SortDistance (policy R) col d) r d
        (s\<lparr>metricEvals := metricEvals s + 1\<rparr>) = Inr s1)"
    "s' = s1\<lparr>lastQueryIndex := q, lastReferenceIndex := r, lastBaseCase := d\<rparr>"
proof -
  from b ne nm have q: "q < length (querySet R)"
    by (auto simp: BaseCase_def ebind_def point_col_def split: if_splits)
  from b ne nm q have r: "r < length (referenceSet R)"
    by (auto simp: BaseCase_def ebind_def point_col_def split: if_splits)
  let ?d = "metric R (querySet R ! q) (referenceSet R ! r)"
  let ?s0 = "s\<lparr>metricEvals := metricEvals s + 1\<rparr>"
  from b ne nm q r obtain col where c: "unsafe_col (distances s) q = Inr col"
    by (cases "unsafe_col (distances s) q")
      (auto simp: BaseCase_def ebind_def point_col_def Let_def)
  let ?pos = "SortDistance (policy R) col ?d"
  have step: "ebind (if ?pos \<noteq> NO_INSERT then InsertNeighbor q ?pos r ?d ?s0 else Inr ?s0)
      (\<lambda>s1. Inr (?d, s1\<lparr>lastQueryIndex := q, lastReferenceIndex := r, lastBaseCase := ?d\<rparr>))
      = Inr (d, s')"
    using b ne nm q r c
    by (auto simp add: BaseCase_def ebind_def point_col_def Let_def split: sum.splits if_splits)
  then obtain s1 where
    s1: "(if ?pos \<noteq> NO_INSERT then InsertNeighbor q ?pos r ?d ?s0 else Inr ?s0) = Inr s1"
    and res: "d = ?d" "s' = s1\<lparr>lastQueryIndex := q, lastReferenceIndex := r, lastBaseCase := ?d\<rparr>"
    by (auto simp: ebind_def split: sum.splits)
  from s1 have "(?pos = NO_INSERT \<and> s1 = ?s0) \<or> (?pos \<noteq> NO_INSERT \<and> InsertNeighbor q ?pos r ?d ?s0 = Inr s1)"
    by (auto split: if_splits)
  with q r c res show ?thesis by (intro that [of col s1]) simp_all
qed

text \<open>
  Claim C4.  When the query set and the reference set are the same matrix,
  \<^verbatim>\<open>BaseCase(i, i)\<close> returns 0 and the state it leaves is the state it found: the metric
  was not evaluated (\<open>metricEvals\<close>), nothing was inserted and the memo was not written.
  Consequently a call of \<^verbatim>\<open>BaseCase\<close> never brings the query's own index into the
  query's column of \<open>neighbors\<close>: if no row of column \<open>q\<close> holds \<open>q\<close> before the call, none
  does after it.
\<close>

theorem BaseCase_self_match:
  assumes "sameSet R"
  shows "BaseCase R i i s = Inr (0, s) \<and>
         (\<forall>q r d s'. results_ok s \<longrightarrow> BaseCase R q r s = Inr (d, s') \<longrightarrow>
            (\<forall>row. elem_at (neighbors s) row q \<noteq> Inr q) \<longrightarrow>
            (\<forall>row. elem_at (neighbors s') row q \<noteq> Inr q))"
proof (intro conjI allI impI)
  show "BaseCase R i i s = Inr (0, s)" using assms by (simp add: BaseCase_def)
next
  fix q r d s' row
  assume ok: "results_ok s" and b: "BaseCase R q r s = Inr (d, s')"
    and own: "\<forall>row. elem_at (neighbors s) row q \<noteq> Inr q"
  show "elem_at (neighbors s') row q \<noteq> Inr q"
  proof (cases "q = r \<or> (lastQueryIndex s = q \<and> lastReferenceIndex s = r)")
    case True
    with b assms have "s' = s" by (auto simp: BaseCase_def split: if_splits)
    with own show ?thesis by simp
  next
    case False
    then have ne: "\<not> (sameSet R \<and> q = r)"
      and nm: "\<not> (lastQueryIndex s = q \<and> lastReferenceIndex s = r)" by simp_all
    from BaseCase_fresh_Inr [OF b ne nm] obtain col s1 where
      s1: "(SortDistance (policy R) col d = NO_INSERT \<and> s1 = s\<lparr>metricEvals := metricEvals s + 1\<rparr>) \<or>
           (SortDistance (policy R) col d \<noteq> NO_INSERT \<and>
            InsertNeighbor q (SortDistance (policy R) col d) r d
              (s\<lparr>metricEvals := metricEvals s + 1\<rparr>) = Inr s1)"
      and s': "s' = s1\<lparr>lastQueryIndex := q, lastReferenceIndex := r, lastBaseCase := d\<rparr>"
      by blast
    from s1 show ?thesis
    proof (elim disjE conjE)
      assume "s1 = s\<lparr>metricEvals := metricEvals s + 1\<rparr>"
      with s' own show ?thesis by simp
    next
      assume ins: "InsertNeighbor q (SortDistance (policy R) col d) r d
              (s\<lparr>metricEvals := metricEvals s + 1\<rparr>) = Inr s1"
      have ok0: "results_ok (s\<lparr>metricEvals := metricEvals s + 1\<rparr>)"
        using ok by (simp add: results_ok_frame)
      show ?thesis
      proof
        assume "elem_at (neighbors s') row q = Inr q"
        then have "elem_at (neighbors s1) row q = Inr q" by (simp add: s')
        from InsertNeighbor_neighbors_from [OF ok0 ins this] own False
        show False by auto
      qed
    qed
  qed
qed

theorem BaseCase_self_match_witness:
  "sameSet ex_Rules \<and> BaseCase ex_Rules 2 2 ex_state = Inr (0, ex_state) \<and>
   results_ok ex_state \<and>
   (\<exists>d s'. BaseCase ex_Rules 0 2 ex_state = Inr (d, s') \<and>
      elem_at (neighbors ex_state) 0 0 \<noteq> Inr 0 \<and> elem_at (neighbors ex_state) 1 0 \<noteq> Inr 0 \<and>
      elem_at (neighbors ex_state) 2 0 \<noteq> Inr 0 \<and>
      elem_at (neighbors s') 0 0 \<noteq> Inr 0 \<and> elem_at (neighbors s') 1 0 \<noteq> Inr 0 \<and>
      elem_at (neighbors s') 2 0 \<noteq> Inr 0)"
proof -
  have same: "sameSet ex_Rules" by (simp add: ex_Rules_def)
  have ok: "results_ok ex_state" by (simp add: results_ok_def Mat_ok_def ex_state_def)
  have own: "\<forall>row. elem_at (neighbors ex_state) row 0 \<noteq> Inr 0"
  proof
    fix row :: nat
    have "row = 0 \<or> row = 1 \<or> row = 2 \<or> 3 \<le> row" by arith
    then show "elem_at (neighbors ex_state) row 0 \<noteq> Inr 0"
      by (auto simp: elem_at_def ex_state_def colptr_def)
  qed
  have "\<exists>d s'. BaseCase ex_Rules 0 2 ex_state = Inr (d, s')"
    by (simp add: BaseCase_def ex_Rules_def ex_state_def ex_points_def point_col_def ebind_def
        unsafe_col_def colptr_def NearestNeighborSort_def NO_INSERT_val InsertNeighbor_def
        size_t_sub_def SIZE_MOD_def int_of_size_t_def memmove_def elem_set_def Let_def)
  then obtain d s' where b: "BaseCase ex_Rules 0 2 ex_state = Inr (d, s')" by blast
  from BaseCase_self_match [OF same, of 2 ex_state] ok b own
  have "BaseCase ex_Rules 2 2 ex_state = Inr (0, ex_state)"
    and "\<forall>row. elem_at (neighbors s') row 0 \<noteq> Inr 0" by blast+
  with same ok b own show ?thesis by blast
qed

subsection \<open>Evaluating the concrete search\<close>

lemma DBL_MAX_big: "x \<le> 1000000 \<Longrightarrow> x < DBL_MAX"
  by (simp add: DBL_MAX_def)

lemma DBL_MAX_not_less: "x \<le> 1000000 \<Longrightarrow> \<not> DBL_MAX < x"
  using DBL_MAX_big [of x] by simp

lemma ex_last_row: "last_row (distances ex_state) = 2"
  by (simp add: last_row_def ex_state_def size_t_sub_def SIZE_MOD_def)

lemma ex_worst_0: "elem_at (distances ex_state) (last_row (distances ex_state)) 0 = Inr 12"
  by (simp add: ex_last_row) (simp add: ex_state_def elem_at_def colptr_def)

lemma NN_simps:
  "IsBetter NearestNeighborSort a b = (a < b)"
  "WorstDistance NearestNeighborSort = DBL_MAX"
  "BestDistance NearestNeighborSort = 0"
  "CombineBest NearestNeighborSort a b = max (a - b) 0"
  "CombineWorst NearestNeighborSort a b = a + b"
  "BestPointToNodeDistance NearestNeighborSort p n = 0"
  "BestNodeToNodeDistance NearestNeighborSort q r = 0"
  "SortDistance NearestNeighborSort list d =
     (if list = [] \<or> \<not> d < last list then NO_INSERT
      else length (takeWhile (\<lambda>x. \<not> d < x) list))"
  by (simp_all add: NearestNeighborSort_def)

lemma ex_Rules_simps:
  "policy ex_Rules = NearestNeighborSort" "sameSet ex_Rules"
  "FirstPointIsCentroid ex_Rules" "HasSelfChildren ex_Rules"
  "querySet ex_Rules = ex_points" "referenceSet ex_Rules = ex_points"
  "metric ex_Rules a b = \<bar>a - b\<bar>"
  by (simp_all add: ex_Rules_def)

lemma ex_nodes_simps:
  "nodes ex_state 0 = ex_node None [1, 2] 0 12"
  "nodes ex_state (Suc 0) = ex_node (Some 0) [3, 4] 0 3"
  "nodes ex_state 2 = ex_node (Some 0) [5] 3 5"
  "nodes ex_state 3 = ex_node (Some 1) [] 1 0"
  "nodes ex_state 4 = ex_node (Some 1) [] 2 0"
  "nodes ex_state 5 = ex_node (Some 2) [] 4 0"
  by (simp_all add: ex_state_def ex_nodes_def)

lemma ex_CalculateBound_1: "\<exists>s'. CalculateBound ex_Rules 1 ex_state = Inr (18, s')"
proof -
  have lt: "(12::real) < DBL_MAX" "\<not> DBL_MAX + 6 < DBL_MAX" "(18::real) < DBL_MAX"
    "\<not> DBL_MAX < 18"
    by (simp_all add: DBL_MAX_big DBL_MAX_not_less)
  show ?thesis
    by (simp add: CalculateBound_def Let_def ex_nodes_simps ex_Rules_simps NN_simps ebind_def
        ex_node_def ex_stat_def ex_worst_0 lt DBL_MAX_big)
qed

subsection \<open>Rescore\<close>

lemma pointLoop_total:
  assumes "Mat_ok D" "0 < n_rows D" "\<forall>p \<in> set ps. p < n_cols D"
  shows "\<exists>b w. pointLoop P D ps acc = Inr (b, w)"
  using assms(3)
proof (induction ps arbitrary: acc)
  case Nil
  then show ?case by (cases acc) simp
next
  case (Cons p ps)
  obtain b w where acc: "acc = (b, w)" by (cases acc)
  from assms(1,2) have lr: "last_row D = n_rows D - 1"
    by (intro last_row_ok) (simp_all add: Mat_ok_def)
  from Cons.prems have p: "p < n_cols D" by simp
  have "elem_at D (last_row D) p = Inr (mem D ! (p * n_rows D + (n_rows D - 1)))"
    using assms(1,2) p by (simp add: lr elem_at_ok)
  with Cons show ?case by (simp add: acc ebind_def)
qed

lemma CalculateBound_total:
  assumes "Mat_ok (distances s)" "0 < n_rows (distances s)"
    "\<forall>p \<in> set (Points (nodes s queryNode)). p < n_cols (distances s)"
  shows "\<exists>b s'. CalculateBound R queryNode s = Inr (b, s')"
proof -
  from pointLoop_total [OF assms] obtain b w where
    "pointLoop (policy R) (distances s) (Points (nodes s queryNode))
       (WorstDistance (policy R), BestDistance (policy R)) = Inr (b, w)"
    by blast
  then show ?thesis
    by (simp add: CalculateBound_def Let_def ebind_def split: prod.splits)
qed

text \<open>
  Claim C6.  Both \<^verbatim>\<open>Rescore\<close> overloads answer the prune sentinel \<^verbatim>\<open>DBL_MAX\<close> when
  \<open>oldScore\<close> is the sentinel (the node overload then leaves the state untouched).
  Whatever they return is \<open>oldScore\<close> itself or the sentinel, never another number:
  \<open>oldScore\<close> when it is better, under the policy, than the query point's worst
  candidate distance (point overload) or than the bound \<^verbatim>\<open>CalculateBound\<close> gives for
  the query node (node overload), the sentinel otherwise.  Both return whenever the
  distance matrix is well formed and the indices they read name columns of it.
\<close>

theorem Rescore_monotone:
  "Rescore_point R queryIndex referenceNode DBL_MAX s = Inr DBL_MAX \<and>
   Rescore_node R queryNode referenceNode DBL_MAX s = Inr (DBL_MAX, s) \<and>
   (\<forall>v. Rescore_point R queryIndex referenceNode oldScore s = Inr v \<longrightarrow>
        v = oldScore \<or> v = DBL_MAX) \<and>
   (\<forall>v s'. Rescore_node R queryNode referenceNode oldScore s = Inr (v, s') \<longrightarrow>
        v = oldScore \<or> v = DBL_MAX) \<and>
   (\<forall>bestDistance. elem_at (distances s) (last_row (distances s)) queryIndex = Inr bestDistance \<longrightarrow>
        Rescore_point R queryIndex referenceNode oldScore s =
          Inr (if oldScore \<noteq> DBL_MAX \<and> IsBetter (policy R) oldScore bestDistance
               then oldScore else DBL_MAX)) \<and>
   (\<forall>bestDistance s'. CalculateBound R queryNode s = Inr (bestDistance, s') \<longrightarrow>
        oldScore \<noteq> DBL_MAX \<longrightarrow>
        Rescore_node R queryNode referenceNode oldScore s =
          Inr (if IsBetter (policy R) oldScore bestDistance then oldScore else DBL_MAX, s')) \<and>
   (Mat_ok (distances s) \<longrightarrow> 0 < n_rows (distances s) \<longrightarrow>
      queryIndex < n_cols (distances s) \<longrightarrow>
      (\<forall>p \<in> set (Points (nodes s queryNode)). p < n_cols (distances s)) \<longrightarrow>
      (\<exists>v. Rescore_point R queryIndex referenceNode oldScore s = Inr v) \<and>
      (\<exists>v s'. Rescore_node R queryNode referenceNode oldScore s = Inr (v, s')))"
proof (intro conjI allI impI)
  show "Rescore_point R queryIndex referenceNode DBL_MAX s = Inr DBL_MAX"
    by (simp add: Rescore_point_def)
  show "Rescore_node R queryNode referenceNode DBL_MAX s = Inr (DBL_MAX, s)"
    by (simp add: Rescore_node_def)
  show "v = oldScore \<or> v = DBL_MAX"
    if "Rescore_point R queryIndex referenceNode oldScore s = Inr v" for v
    using that by (auto simp: Rescore_point_def ebind_def split: if_splits sum.splits)
  show "v = oldScore \<or> v = DBL_MAX"
    if "Rescore_node R queryNode referenceNode oldScore s = Inr (v, s')" for v s'
    using that by (auto simp: Rescore_node_def ebind_def split: if_splits sum.splits)
  show "Rescore_point R queryIndex referenceNode oldScore s =
          Inr (if oldScore \<noteq> DBL_MAX \<and> IsBetter (policy R) oldScore bestDistance
               then oldScore else DBL_MAX)"
    if "elem_at (distances s) (last_row (distances s)) queryIndex = Inr bestDistance"
    for bestDistance
    using that by (simp add: Rescore_point_def ebind_def)
  show "Rescore_node R queryNode referenceNode oldScore s =
          Inr (if IsBetter (policy R) oldScore bestDistance then oldScore else DBL_MAX, s')"
    if "CalculateBound R queryNode s = Inr (bestDistance, s')" "oldScore \<noteq> DBL_MAX"
    for bestDistance s'
    using that by (simp add: Rescore_node_def ebind_def)
next
  assume a: "Mat_ok (distances s)" "0 < n_rows (distances s)"
    "queryIndex < n_cols (distances s)"
    "\<forall>p \<in> set (Points (nodes s queryNode)). p < n_cols (distances s)"
  from a(1,2) have lr: "last_row (distances s) = n_rows (distances s) - 1"
    by (intro last_row_ok) (simp_all add: Mat_ok_def)
  show "\<exists>v. Rescore_point R queryIndex referenceNode oldScore s = Inr v"
    using a by (simp add: Rescore_point_def ebind_def lr elem_at_ok)
  from CalculateBound_total [OF a(1,2,4)] obtain b s' where
    "CalculateBound R queryNode s = Inr (b, s')" by blast
  then show "\<exists>v s'. Rescore_node R queryNode referenceNode oldScore s = Inr (v, s')"
    by (simp add: Rescore_node_def ebind_def)
qed

theorem Rescore_monotone_witness:
  "Rescore_point ex_Rules 0 2 DBL_MAX ex_state = Inr DBL_MAX \<and>
   Rescore_node ex_Rules 1 2 DBL_MAX ex_state = Inr (DBL_MAX, ex_state) \<and>
   Rescore_point ex_Rules 0 2 5 ex_state = Inr 5 \<and>
   Rescore_point ex_Rules 0 2 20 ex_state = Inr DBL_MAX \<and>
   (\<exists>s'. Rescore_node ex_Rules 1 2 5 ex_state = Inr (5, s')) \<and>
   (\<exists>s'. Rescore_node ex_Rules 1 2 20 ex_state = Inr (DBL_MAX, s'))"
proof -
  from ex_CalculateBound_1 obtain s' where
    cb: "CalculateBound ex_Rules 1 ex_state = Inr (18, s')" by blast
  have ne: "(5::real) \<noteq> DBL_MAX" "(20::real) \<noteq> DBL_MAX"
    using DBL_MAX_big [of 5] DBL_MAX_big [of 20] by simp_all
  from Rescore_monotone [where R = ex_Rules and queryIndex = 0 and referenceNode = 2
      and s = ex_state and queryNode = 1 and oldScore = 5] ex_worst_0 cb ne
  have a: "Rescore_point ex_Rules 0 2 DBL_MAX ex_state = Inr DBL_MAX"
    "Rescore_node ex_Rules 1 2 DBL_MAX ex_state = Inr (DBL_MAX, ex_state)"
    "Rescore_point ex_Rules 0 2 5 ex_state = Inr 5"
    "Rescore_node ex_Rules 1 2 5 ex_state = Inr (5, s')"
    by (simp_all add: ex_Rules_simps NN_simps)
  from Rescore_monotone [where R = ex_Rules and queryIndex = 0 and referenceNode = 2
      and s = ex_state and queryNode = 1 and oldScore = 20] ex_worst_0 cb ne
  have b: "Rescore_point ex_Rules 0 2 20 ex_state = Inr DBL_MAX"
    "Rescore_node ex_Rules 1 2 20 ex_state = Inr (DBL_MAX, s')"
    by (simp_all add: ex_Rules_simps NN_simps)
  from a b show ?thesis by blast
qed

subsection \<open>The one-slot memo of the base case\<close>

lemma InsertNeighbor_frame:
  "InsertNeighbor q pos nb d s = Inr s' \<Longrightarrow>
   metricEvals s' = metricEvals s \<and> lastQueryIndex s' = lastQueryIndex s \<and>
   lastReferenceIndex s' = lastReferenceIndex s \<and> lastBaseCase s' = lastBaseCase s \<and>
   nodes s' = nodes s"
  by (auto simp: InsertNeighbor_def ebind_def elem_set_def split: sum.splits if_splits)

lemma BaseCase_fresh_result:
  assumes b: "BaseCase R q r s = Inr (d, s')"
    and ne: "\<not> (sameSet R \<and> q = r)"
    and nm: "\<not> (lastQueryIndex s = q \<and> lastReferenceIndex s = r)"
  shows "d = metric R (querySet R ! q) (referenceSet R ! r) \<and>
         metricEvals s' = metricEvals s + 1 \<and> nodes s' = nodes s \<and>
         lastQueryIndex s' = q \<and> lastReferenceIndex s' = r \<and> lastBaseCase s' = d"
proof -
  from BaseCase_fresh_Inr [OF b ne nm] obtain col s1 where
    d: "d = metric R (querySet R ! q) (referenceSet R ! r)"
    and s1: "(SortDistance (policy R) col d = NO_INSERT \<and> s1 = s\<lparr>metricEvals := metricEvals s + 1\<rparr>) \<or>
           (SortDistance (policy R) col d \<noteq> NO_INSERT \<and>
            InsertNeighbor q (SortDistance (policy R) col d) r d
              (s\<lparr>metricEvals := metricEvals s + 1\<rparr>) = Inr s1)"
    and s': "s' = s1\<lparr>lastQueryIndex := q, lastReferenceIndex := r, lastBaseCase := d\<rparr>"
    by blast
  from s1 have "metricEvals s1 = metricEvals s + 1 \<and> nodes s1 = nodes s"
    by (auto dest: InsertNeighbor_frame)
  with d s' show ?thesis by simp
qed

lemma BaseCase_memo_after:
  assumes b: "BaseCase R q r s = Inr (d, s')" and ne: "\<not> (sameSet R \<and> q = r)"
  shows "lastQueryIndex s' = q \<and> lastReferenceIndex s' = r \<and> lastBaseCase s' = d"
proof (cases "lastQueryIndex s = q \<and> lastReferenceIndex s = r")
  case True
  with b ne have "d = lastBaseCase s \<and> s' = s" by (auto simp: BaseCase_def)
  with True show ?thesis by simp
next
  case False
  from BaseCase_fresh_result [OF b ne False] show ?thesis by simp
qed

lemma unsafe_col_ok:
  "Mat_ok M \<Longrightarrow> c < n_cols M \<Longrightarrow>
   unsafe_col M c = Inr (take (n_rows M) (drop (c * n_rows M) (mem M)))"
  using col_end_in_block [of c "n_cols M" "n_rows M"]
  by (simp add: unsafe_col_def Mat_ok_def colptr_def)

lemma BaseCase_total:
  assumes ok: "results_ok s" and q: "q < length (querySet R)" and r: "r < length (referenceSet R)"
    and qc: "q < n_cols (distances s)"
    and sd: "SortDistance_in_range (policy R)"
  shows "\<exists>d s'. BaseCase R q r s = Inr (d, s')"
proof -
  let ?s0 = "s\<lparr>metricEvals := metricEvals s + 1\<rparr>"
  let ?d = "metric R (querySet R ! q) (referenceSet R ! r)"
  let ?col = "take (n_rows (distances s)) (drop (q * n_rows (distances s)) (mem (distances s)))"
  let ?pos = "SortDistance (policy R) ?col ?d"
  from ok have okD: "Mat_ok (distances s)" by (simp add: results_ok_def)
  have ok0: "results_ok ?s0" using ok by (simp add: results_ok_frame)
  have col: "unsafe_col (distances ?s0) q = Inr ?col" using unsafe_col_ok [OF okD qc] by simp
  have lcol: "length ?col = n_rows (distances s)"
    using col_end_in_block [OF qc, of "n_rows (distances s)"] okD by (simp add: Mat_ok_def)
  have "\<exists>s1. (if ?pos \<noteq> NO_INSERT then InsertNeighbor q ?pos r ?d ?s0 else Inr ?s0) = Inr s1"
  proof (cases "?pos = NO_INSERT")
    case True
    then show ?thesis by simp
  next
    case False
    from sd have "?pos = NO_INSERT \<or> ?pos < length ?col"
      unfolding SortDistance_in_range_def by blast
    with False lcol have "?pos < n_rows (distances ?s0)" by simp
    from InsertNeighbor_eq [OF ok0 _ this, of q r ?d] qc False show ?thesis by simp
  qed
  then obtain s1 where
    "(if ?pos \<noteq> NO_INSERT then InsertNeighbor q ?pos r ?d ?s0 else Inr ?s0) = Inr s1" by blast
  then show ?thesis
    using q r col by (auto simp: BaseCase_def point_col_def ebind_def Let_def)
qed

lemma NN_in_range: "SortDistance_in_range NearestNeighborSort"
proof -
  have "length (takeWhile (\<lambda>x. \<not> d < x) list) < length list"
    if "list \<noteq> []" "d < last list" for list :: "real list" and d
  proof -
    from that have "\<not> (\<forall>x \<in> set list. \<not> d < x)" using last_in_set by blast
    then have "takeWhile (\<lambda>x. \<not> d < x) list \<noteq> list" by simp
    moreover have "length (takeWhile (\<lambda>x. \<not> d < x) list) \<le> length list"
      by (rule length_takeWhile_le)
    ultimately show ?thesis
      by (metis le_neq_implies_less takeWhile_eq_take take_all_iff order_refl)
  qed
  then show ?thesis by (auto simp: SortDistance_in_range_def NN_simps)
qed

lemma ex_BaseCase_0_2: "BaseCase ex_Rules 0 2 ex_state = Inr (3, ex_state_after)"
  by (simp add: BaseCase_def ex_Rules_simps NN_simps ex_state_def ex_state_after_def ex_points_def
      point_col_def ebind_def unsafe_col_def colptr_def NO_INSERT_val InsertNeighbor_def
      size_t_sub_def SIZE_MOD_def int_of_size_t_def memmove_def elem_set_def Let_def)

text \<open>
  Claim C5, as stated, fails.  The claim lets every call whose pair differs from the pair
  of the call just before it evaluate the metric.  In the concrete search,
  \<^verbatim>\<open>BaseCase(0, 2)\<close> computes the distance 3 and leaves \<open>ex_state_after\<close>; then
  \<^verbatim>\<open>BaseCase(1, 1)\<close> is elided as a self-match and records nothing; then
  \<^verbatim>\<open>BaseCase(0, 2)\<close>, whose pair differs from the pair \<open>(1, 1)\<close> of the call before it,
  returns the cached 3 and leaves the state as it is: the count of metric evaluations is
  still 1.
\<close>

theorem BaseCase_memo_counterexample:
  "BaseCase ex_Rules 0 2 ex_state = Inr (3, ex_state_after) \<and>
   BaseCase ex_Rules 1 1 ex_state_after = Inr (0, ex_state_after) \<and>
   BaseCase ex_Rules 0 2 ex_state_after = Inr (3, ex_state_after) \<and>
   metricEvals ex_state_after = 1 \<and>
   metric ex_Rules (querySet ex_Rules ! 0) (referenceSet ex_Rules ! 2) = 3"
  by (simp add: ex_BaseCase_0_2)
     (simp add: BaseCase_def ex_Rules_simps ex_state_after_def ex_points_def)

text \<open>
  Claim C5, amended.  For a pair \<open>(q, r)\<close> that is not elided as a self-match: a call of
  \<^verbatim>\<open>BaseCase(q, r)\<close> right after a returning call with the same pair returns the same
  distance and leaves the whole state (candidate lists, memo, count of metric
  evaluations) unchanged; a call right after a returning call with a different pair
  that was not itself elided as a self-match evaluates the metric once, returns that
  distance whether or not it was inserted, and leaves the memo holding \<open>(q, r)\<close> and the
  distance; and such a call returns whenever the result matrices are well formed, the
  indices are in range and \<^verbatim>\<open>SortDistance\<close> answers a row of the list or "do not insert".
\<close>

theorem BaseCase_memoization:
  assumes "\<not> (sameSet R \<and> q = r)"
  shows "(\<forall>s d s1. BaseCase R q r s = Inr (d, s1) \<longrightarrow> BaseCase R q r s1 = Inr (d, s1)) \<and>
         (\<forall>q' r' s d' s1 d s2.
            \<not> (sameSet R \<and> q' = r') \<longrightarrow> (q', r') \<noteq> (q, r) \<longrightarrow>
            BaseCase R q' r' s = Inr (d', s1) \<longrightarrow> BaseCase R q r s1 = Inr (d, s2) \<longrightarrow>
            d = metric R (querySet R ! q) (referenceSet R ! r) \<and>
            metricEvals s2 = metricEvals s1 + 1 \<and>
            lastQueryIndex s2 = q \<and> lastReferenceIndex s2 = r \<and> lastBaseCase s2 = d) \<and>
         (\<forall>s1. results_ok s1 \<longrightarrow> q < length (querySet R) \<longrightarrow> r < length (referenceSet R) \<longrightarrow>
            q < n_cols (distances s1) \<longrightarrow>
            SortDistance_in_range (policy R) \<longrightarrow>
            (\<exists>d s2. BaseCase R q r s1 = Inr (d, s2)))"
proof (intro conjI allI impI)
  fix s d s1
  assume b: "BaseCase R q r s = Inr (d, s1)"
  from BaseCase_memo_after [OF b assms] BaseCase_memo [OF assms, of s1]
  show "BaseCase R q r s1 = Inr (d, s1)" by simp
next
  fix q' r' s d' s1 d s2
  assume ne': "\<not> (sameSet R \<and> q' = r')" and diff: "(q', r') \<noteq> (q, r)"
    and b1: "BaseCase R q' r' s = Inr (d', s1)" and b2: "BaseCase R q r s1 = Inr (d, s2)"
  from BaseCase_memo_after [OF b1 ne'] diff
  have nm: "\<not> (lastQueryIndex s1 = q \<and> lastReferenceIndex s1 = r)" by auto
  from BaseCase_fresh_result [OF b2 assms nm]
  show "d = metric R (querySet R ! q) (referenceSet R ! r)"
    "metricEvals s2 = metricEvals s1 + 1" "lastQueryIndex s2 = q"
    "lastReferenceIndex s2 = r" "lastBaseCase s2 = d"
    by simp_all
next
  fix s1
  assume "results_ok s1" "q < length (querySet R)" "r < length (referenceSet R)"
    "q < n_cols (distances s1)"
    "SortDistance_in_range (policy R)"
  then show "\<exists>d s2. BaseCase R q r s1 = Inr (d, s2)" by (rule BaseCase_total)
qed

theorem BaseCase_memoization_witness:
  "\<not> (sameSet ex_Rules \<and> (0::nat) = 2) \<and>
   BaseCase ex_Rules 0 2 ex_state = Inr (3, ex_state_after) \<and>
   BaseCase ex_Rules 0 2 ex_state_after = Inr (3, ex_state_after) \<and>
   \<not> (sameSet ex_Rules \<and> (1::nat) = 3) \<and> ((1::nat), (3::nat)) \<noteq> (0, 2) \<and>
   (\<exists>s1 s2. BaseCase ex_Rules 1 3 ex_state = Inr (6, s1) \<and>
      BaseCase ex_Rules 0 2 s1 = Inr (3, s2) \<and>
      metricEvals s2 = metricEvals s1 + 1 \<and>
      lastQueryIndex s2 = 0 \<and> lastReferenceIndex s2 = 2 \<and> lastBaseCase s2 = 3)"
proof -
  have ne: "\<not> (sameSet ex_Rules \<and> (0::nat) = 2)" "\<not> (sameSet ex_Rules \<and> (1::nat) = 3)"
    "((1::nat), (3::nat)) \<noteq> (0, 2)" by simp_all
  note mem = BaseCase_memoization [OF ne(1)]
  from mem ex_BaseCase_0_2
  have same: "BaseCase ex_Rules 0 2 ex_state_after = Inr (3, ex_state_after)" by blast
  define s1 where "s1 = ex_state\<lparr>metricEvals := 1, lastQueryIndex := 1,
      lastReferenceIndex := 3, lastBaseCase := 6\<rparr>"
  have b1: "BaseCase ex_Rules 1 3 ex_state = Inr (6, s1)"
    by (simp add: BaseCase_def ex_Rules_simps NN_simps ex_state_def ex_points_def s1_def
      point_col_def ebind_def unsafe_col_def colptr_def Let_def)
  have ok1: "results_ok s1" "(0::nat) < length (querySet ex_Rules)"
    "(2::nat) < length (referenceSet ex_Rules)" "(0::nat) < n_cols (distances s1)"
    "SortDistance_in_range (policy ex_Rules)"
    by (simp_all add: s1_def results_ok_def Mat_ok_def ex_state_def ex_Rules_simps ex_points_def
        NN_in_range)
  from mem ok1 obtain d s2 where b2: "BaseCase ex_Rules 0 2 s1 = Inr (d, s2)" by blast
  from mem ne(2,3) b1 b2
  have r: "d = metric ex_Rules (querySet ex_Rules ! 0) (referenceSet ex_Rules ! 2) \<and>
     metricEvals s2 = metricEvals s1 + 1 \<and>
     lastQueryIndex s2 = 0 \<and> lastReferenceIndex s2 = 2 \<and> lastBaseCase s2 = d"
    by blast
  then have "d = 3" by (simp add: ex_Rules_simps ex_points_def)
  with r b1 b2 ne same ex_BaseCase_0_2 show ?thesis
    by (intro conjI exI [of _ s1] exI [of _ s2]) simp_all
qed

subsection \<open>Score at concrete inputs\<close>

lemma ex_dist_simps:
  "distances ex_state = \<lparr>n_rows = 3, n_cols = 5,
       mem = [1, 7, 12,  1, 2, 6,  2, 3, 9,  4, 5, 7,  5, 9, 11]\<rparr>"
  "lastQueryIndex ex_state = 5" "lastReferenceIndex ex_state = 5"
  by (simp_all add: ex_state_def)

lemma ex_after_worst_0:
  "elem_at (distances ex_state_after) (last_row (distances ex_state_after)) 0 = Inr 7"
  by (simp add: last_row_def ex_state_after_def size_t_sub_def SIZE_MOD_def elem_at_def colptr_def)

text \<open>
  Claim C10 at a concrete call.  In \<open>ex_state\<close> no node has been compared yet, so every
  \<^verbatim>\<open>LastDistanceNode()\<close> is \<^verbatim>\<open>NULL\<close>.  Node 1 is a self-child of the root (both hold point
  0).  \<^verbatim>\<open>Score(queryNode = 1, referenceNode = 2)\<close> takes the branch "the query node is a
  self-child" and dereferences the root's \<^verbatim>\<open>LastDistanceNode()\<close>, which is \<^verbatim>\<open>NULL\<close>.
\<close>

theorem Score_node_null_parent_cache:
  "Parent (nodes ex_state 1) = Some 0 \<and>
   Point (nodes ex_state 0) 0 = Point (nodes ex_state 1) 0 \<and>
   LastDistanceNode (Stat (nodes ex_state 0)) = None \<and>
   Score_node ex_Rules 1 2 ex_state = Inl NullPointer"
  by (simp add: Score_node_def cachedBaseCase_def ex_Rules_simps ex_nodes_simps ex_node_def
      ex_stat_def Point_def NumPoints_def ebind_def Let_def)

text \<open>
  Claim C2 at a concrete call.  For a tree type whose first point is the centroid and
  which has no self-children, \<^verbatim>\<open>Score(queryIndex = 0, referenceNode = 4)\<close> never calls
  \<^verbatim>\<open>BaseCase\<close>: with the value 9 in the unwritten local \<^verbatim>\<open>baseCase\<close> it returns
  \<open>CombineBest 9 0 = 9\<close> and leaves the state untouched.  The base case of query point 0
  and the node's first point 2 is 3, and the bound the claim describes is
  \<open>CombineBest 3 0 = 3\<close>; that is what the same call returns, after one call of
  \<^verbatim>\<open>BaseCase(0, 2)\<close>, when the tree type has self-children.
\<close>

theorem Score_point_uninitialised_baseCase:
  "Score_point (ex_Rules\<lparr>HasSelfChildren := False\<rparr>) 9 0 4 ex_state = Inr (9, ex_state) \<and>
   Parent (nodes ex_state 4) = Some 1 \<and>
   Point (nodes ex_state 4) 0 = Inr 2 \<and> Point (nodes ex_state 1) 0 = Inr 0 \<and>
   BaseCase ex_Rules 0 2 ex_state = Inr (3, ex_state_after) \<and>
   CombineBest (policy ex_Rules) 3 (FurthestDescendantDistance (nodes ex_state 4)) = 3 \<and>
   Score_point ex_Rules 9 0 4 ex_state =
     Inr (3, update_Stat 4 (\<lambda>st. st\<lparr>LastDistance := 3\<rparr>) ex_state_after)"
proof (intro conjI)
  show "Score_point (ex_Rules\<lparr>HasSelfChildren := False\<rparr>) 9 0 4 ex_state = Inr (9, ex_state)"
    by (simp add: Score_point_def ex_Rules_def NN_simps ex_nodes_simps ex_node_def ebind_def
        ex_worst_0)
  show "Parent (nodes ex_state 4) = Some 1" "Point (nodes ex_state 4) 0 = Inr 2"
    "Point (nodes ex_state 1) 0 = Inr 0"
    by (simp_all add: ex_nodes_simps ex_node_def Point_def NumPoints_def)
  show "BaseCase ex_Rules 0 2 ex_state = Inr (3, ex_state_after)" by (rule ex_BaseCase_0_2)
  show "CombineBest (policy ex_Rules) 3 (FurthestDescendantDistance (nodes ex_state 4)) = 3"
    by (simp add: ex_Rules_simps NN_simps ex_nodes_simps ex_node_def)
  have n: "nodes ex_state_after 4 = ex_node (Some 1) [] 2 0"
    by (simp add: ex_state_after_def ex_nodes_def)
  show "Score_point ex_Rules 9 0 4 ex_state =
     Inr (3, update_Stat 4 (\<lambda>st. st\<lparr>LastDistance := 3\<rparr>) ex_state_after)"
    by (simp add: Score_point_def ex_Rules_simps NN_simps ex_nodes_simps ex_node_def ebind_def
        Point_def NumPoints_def ex_BaseCase_0_2 update_Stat_def n)
       (simp add: ex_state_after_def last_row_def size_t_sub_def SIZE_MOD_def elem_at_def
        colptr_def)
qed

text \<open>
  Claim C1 at a concrete call.  For the same tree type and the value 100 in the unwritten
  local, \<^verbatim>\<open>Score(queryIndex = 0, referenceNode = 4)\<close> returns the prune sentinel.  Node 4
  holds reference point 2, whose distance 3 from query point 0 is better than 12, the
  worst candidate distance of query point 0 at that moment.
\<close>

theorem Score_point_prunes_nearer_point:
  "Score_point (ex_Rules\<lparr>HasSelfChildren := False\<rparr>) 100 0 4 ex_state
     = Inr (DBL_MAX, ex_state) \<and>
   Points (nodes ex_state 4) = [2] \<and>
   metric ex_Rules (querySet ex_Rules ! 0) (referenceSet ex_Rules ! 2) = 3 \<and>
   elem_at (distances ex_state) (last_row (distances ex_state)) 0 = Inr 12 \<and>
   IsBetter (policy ex_Rules) 3 12"
proof (intro conjI)
  show "Score_point (ex_Rules\<lparr>HasSelfChildren := False\<rparr>) 100 0 4 ex_state
     = Inr (DBL_MAX, ex_state)"
    by (simp add: Score_point_def ex_Rules_def NN_simps ex_nodes_simps ex_node_def ebind_def
        ex_worst_0)
  show "Points (nodes ex_state 4) = [2]" by (simp add: ex_nodes_simps ex_node_def)
  show "metric ex_Rules (querySet ex_Rules ! 0) (referenceSet ex_Rules ! 2) = 3"
    by (simp add: ex_Rules_simps ex_points_def)
  show "elem_at (distances ex_state) (last_row (distances ex_state)) 0 = Inr 12"
    by (rule ex_worst_0)
  show "IsBetter (policy ex_Rules) 3 12" by (simp add: ex_Rules_simps NN_simps)
qed

subsection \<open>The bound update\<close>

lemma kth_distance_elem_at:
  assumes "Mat_ok D" "0 < n_rows D" "p < n_cols D"
  shows "elem_at D (last_row D) p = Inr (kth_distance D p)"
proof -
  from assms(1,2) have "last_row D = n_rows D - 1"
    by (intro last_row_ok) (simp_all add: Mat_ok_def)
  with assms show ?thesis by (simp add: elem_at_ok kth_distance_def colptr_def)
qed

lemma pointLoop_folds:
  assumes "Mat_ok D" "0 < n_rows D" "\<forall>p \<in> set ps. p < n_cols D"
  shows "pointLoop P D ps (b, w) =
         Inr (foldl (\<lambda>acc d. best P d acc) b (map (kth_distance D) ps),
              foldl (worst P) w (map (kth_distance D) ps))"
  using assms(3)
proof (induction ps arbitrary: b w)
  case Nil
  then show ?case by simp
next
  case (Cons p ps)
  then have "elem_at D (last_row D) p = Inr (kth_distance D p)"
    using kth_distance_elem_at [OF assms(1,2)] by simp
  with Cons show ?case by (simp add: ebind_def best_def worst_def)
qed

lemma childLoop_folds:
  "childLoop P N qm cs (w, b) =
     (foldl (worst P) w (map (\<lambda>c. FirstBound (Stat (N c))) cs),
      foldl (\<lambda>acc b. best P b acc) b
        (map (\<lambda>c. CombineWorst P (SecondBound (Stat (N c)))
                     (2 * (qm - FurthestDescendantDistance (N c)))) cs))"
  by (induction cs arbitrary: w b) (simp_all add: Let_def best_def worst_def)

lemma ex2_simps:
  "distances ex_state2 = distances ex_state"
  "nodes ex_state2 0 = \<lparr>Parent = None, Children = [1], Points = [],
      FurthestDescendantDistance = 12, Stat = ex_stat\<rparr>"
  "nodes ex_state2 (Suc 0) = \<lparr>Parent = Some 0, Children = [], Points = [0, 1],
      FurthestDescendantDistance = 1, Stat = ex_stat\<rparr>"
  by (simp_all add: ex_state2_def ex_nodes2_def)

lemma ex3_simps:
  "distances ex_state3 = distances ex_state"
  "nodes ex_state3 0 = \<lparr>Parent = None, Children = [1], Points = [],
      FurthestDescendantDistance = 12, Stat = ex_stat\<rparr>"
  "nodes ex_state3 (Suc 0) = \<lparr>Parent = Some 0, Children = [], Points = [0, 1],
      FurthestDescendantDistance = 1,
      Stat = ex_stat\<lparr>FirstBound := 12, SecondBound := 8, Bound := 8\<rparr>\<rparr>"
  by (simp_all add: ex_state3_def update_Stat_def ex2_simps)

lemma ex_kth:
  "kth_distance (distances ex_state) 0 = 12" "kth_distance (distances ex_state) (Suc 0) = 6"
  by (simp_all add: kth_distance_def ex_state_def colptr_def)

lemma ex_distances_ok:
  "Mat_ok (distances ex_state)" "0 < n_rows (distances ex_state)"
  "n_cols (distances ex_state) = 5"
  by (simp_all add: Mat_ok_def ex_state_def)

lemma DBL_MAX_cmp:
  "(12::real) < DBL_MAX" "(8::real) < DBL_MAX" "(6::real) < DBL_MAX" "(30::real) < DBL_MAX"
  "\<not> DBL_MAX < 8" "\<not> DBL_MAX < 12" "\<not> DBL_MAX < 30" "\<not> DBL_MAX < 6" "0 < DBL_MAX"
  "\<not> DBL_MAX + 24 < DBL_MAX" "\<not> DBL_MAX + 24 < 30" "\<not> DBL_MAX < 0"
  using DBL_MAX_big [of 0] by (simp_all add: DBL_MAX_big DBL_MAX_not_less)

lemma ex2_bound_1: "five_bound_update FirstBound ex_Rules 1 ex_state2 = (8, ex_state3)"
  by (simp add: five_bound_update_def ex2_simps ex_Rules_simps NN_simps ex_kth best_def
      worst_def ex_stat_def DBL_MAX_cmp Let_def ex_state3_def)

lemma ex2_CalculateBound_1: "CalculateBound ex_Rules 1 ex_state2 = Inr (8, ex_state3)"
proof -
  have k: "elem_at (distances ex_state) (last_row (distances ex_state)) 0 = Inr 12"
    "elem_at (distances ex_state) (last_row (distances ex_state)) (Suc 0) = Inr 6"
    using kth_distance_elem_at [OF ex_distances_ok(1,2)] by (simp_all add: ex_distances_ok ex_kth)
  show ?thesis
    by (simp add: CalculateBound_def ex2_simps ex_Rules_simps NN_simps ebind_def ex_stat_def
        DBL_MAX_cmp Let_def k ex_state3_def)
qed

text \<open>
  Claim C3, as stated, fails.  Section 4.4 takes, in quantity (1), the worst of the
  children's cached \<open>bound\<close> values; the code takes the worst of the children's cached
  \<^verbatim>\<open>FirstBound()\<close>.  In \<open>ex_state2\<close>, \<^verbatim>\<open>CalculateBound\<close> on node 1 stores the first bound 12
  and the second bound and bound 8.  Called on the root next, whose only child is node 1,
  the code returns 12, while the update of section 4.4 gives 8.
\<close>

theorem CalculateBound_child_bound_counterexample:
  "CalculateBound ex_Rules 1 ex_state2 = Inr (8, ex_state3) \<and>
   Children (nodes ex_state3 0) = [1] \<and>
   FirstBound (Stat (nodes ex_state3 1)) = 12 \<and> Bound (Stat (nodes ex_state3 1)) = 8 \<and>
   map_sum id fst (CalculateBound ex_Rules 0 ex_state3) = Inr 12 \<and>
   fst (UpdateBound_spec ex_Rules 0 ex_state3) = 8"
proof -
  have a: "CalculateBound ex_Rules 1 ex_state2 = Inr (8, ex_state3)"
    by (rule ex2_CalculateBound_1)
  have b: "map_sum id fst (CalculateBound ex_Rules 0 ex_state3) = Inr 12"
    by (simp add: CalculateBound_def ex3_simps ex_Rules_simps NN_simps ebind_def ex_stat_def
        DBL_MAX_cmp Let_def)
  have c: "fst (UpdateBound_spec ex_Rules 0 ex_state3) = 8"
    by (simp add: UpdateBound_spec_def five_bound_update_def ex3_simps ex_Rules_simps NN_simps
        best_def worst_def ex_stat_def DBL_MAX_cmp Let_def)
  from a b c show ?thesis by (simp add: ex3_simps)
qed

text \<open>
  Claim C3, amended.  When the distance matrix is well formed and the node's points name
  columns of it, \<^verbatim>\<open>CalculateBound\<close> returns, and what it returns and stores is the
  five-quantity update with quantity (1) taking the worst of the owned points' \<open>k\<close>-th
  candidate distances and of the children's cached first bounds: quantity (2) is the best
  owned-point \<open>k\<close>-th candidate distance widened by twice the node's
  furthest-descendant-distance, quantity (3) the best child second bound adjusted by
  twice the difference of the descendant distances, quantities (4) and (5) the parent's
  first and second bound or the policy's worst distance without a parent; the new first
  bound is \<open>best (1) (4)\<close>, the new second bound \<open>best (best (3) (2)) (5)\<close>, the new bound
  the best of these two; all three are stored on the node and the bound is returned.
\<close>

theorem CalculateBound_five_bounds:
  assumes "Mat_ok (distances s)" and "0 < n_rows (distances s)"
    and "\<forall>p \<in> set (Points (nodes s queryNode)). p < n_cols (distances s)"
  shows "CalculateBound R queryNode s = Inr (five_bound_update FirstBound R queryNode s)"
  by (simp add: CalculateBound_def five_bound_update_def pointLoop_folds [OF assms]
      childLoop_folds ebind_def Let_def best_def worst_def)

theorem CalculateBound_five_bounds_witness:
  "Mat_ok (distances ex_state2) \<and> 0 < n_rows (distances ex_state2) \<and>
   Points (nodes ex_state2 1) = [0, 1] \<and> n_cols (distances ex_state2) = 5 \<and>
   CalculateBound ex_Rules 1 ex_state2 = Inr (8, ex_state3) \<and>
   FirstBound (Stat (nodes ex_state3 1)) = 12 \<and>
   SecondBound (Stat (nodes ex_state3 1)) = 8 \<and>
   Bound (Stat (nodes ex_state3 1)) = 8"
proof -
  have h: "Mat_ok (distances ex_state2)" "0 < n_rows (distances ex_state2)"
    "\<forall>p \<in> set (Points (nodes ex_state2 1)). p < n_cols (distances ex_state2)"
    by (simp_all add: ex2_simps ex_distances_ok)
  from CalculateBound_five_bounds [OF h, of ex_Rules] ex2_bound_1
  have "CalculateBound ex_Rules 1 ex_state2 = Inr (8, ex_state3)" by simp
  with h(1,2) show ?thesis by (simp add: ex2_simps ex3_simps ex_distances_ok)
qed

subsection \<open>Candidate lists under ranked insertion\<close>

lemma length_column: "Mat_ok M \<Longrightarrow> c < n_cols M \<Longrightarrow> length (column M c) = n_rows M"
  using col_end_in_block [of c "n_cols M" "n_rows M"]
  by (simp add: column_def Mat_ok_def colptr_def)

lemma nth_column:
  "Mat_ok M \<Longrightarrow> c < n_cols M \<Longrightarrow> i < n_rows M \<Longrightarrow> column M c ! i = mem M ! (colptr M c + i)"
  using col_end_in_block [of c "n_cols M" "n_rows M"]
  by (simp add: column_def Mat_ok_def colptr_def)

lemma unsafe_col_column: "Mat_ok M \<Longrightarrow> c < n_cols M \<Longrightarrow> unsafe_col M c = Inr (column M c)"
  by (simp add: unsafe_col_ok column_def colptr_def)

lemma length_ranked_insert: "pos < length xs \<Longrightarrow> length (ranked_insert pos v xs) = length xs"
  by (simp add: ranked_insert_def)

lemma nth_ranked_insert:
  "pos < length xs \<Longrightarrow> i < length xs \<Longrightarrow>
   ranked_insert pos v xs ! i = (if i < pos then xs ! i else if i = pos then v else xs ! (i - 1))"
proof -
  assume a: "pos < length xs" "i < length xs"
  have "pos + x2 = i - Suc 0" if "i - pos = Suc x2" for x2 using that by simp
  with a show ?thesis
    by (auto simp: ranked_insert_def nth_append nth_Cons split: nat.splits)
qed

lemma Mat_ok_shifted:
  "Mat_ok (M\<lparr>mem := shifted (mem M) b k pos v\<rparr>) = Mat_ok M"
  by (simp add: Mat_ok_def length_shifted)

lemma column_shifted_same:
  assumes ok: "Mat_ok M" and q: "q < n_cols M" and p: "pos < n_rows M"
  shows "column (M\<lparr>mem := shifted (mem M) (colptr M q) (n_rows M) pos v\<rparr>) q =
         ranked_insert pos v (column M q)"
proof (rule nth_equalityI)
  let ?M' = "M\<lparr>mem := shifted (mem M) (colptr M q) (n_rows M) pos v\<rparr>"
  have ok': "Mat_ok ?M'" using ok by (simp add: Mat_ok_shifted)
  have l: "length (column M q) = n_rows M" using ok q by (rule length_column)
  have l': "length (column ?M' q) = n_rows M" using length_column [OF ok', of q] q by simp
  show "length (column ?M' q) = length (ranked_insert pos v (column M q))"
    using p by (simp add: l l' length_ranked_insert)
  fix i assume "i < length (column ?M' q)"
  then have i: "i < n_rows M" by (simp add: l')
  from ok have len: "length (mem M) = n_rows M * n_cols M" by (simp add: Mat_ok_def)
  have inb: "colptr M q + i < length (mem M)"
    using col_in_block [OF q i] by (simp add: colptr_def len)
  have "column ?M' q ! i = shifted (mem M) (colptr M q) (n_rows M) pos v ! (colptr M q + i)"
    using nth_column [OF ok', of q i] q i by (simp add: colptr_mem_update)
  also have "\<dots> = (if i < pos then column M q ! i else if i = pos then v
                     else column M q ! (i - 1))"
    using inb i p by (auto simp: nth_shifted nth_column [OF ok q])
  finally show "column ?M' q ! i = ranked_insert pos v (column M q) ! i"
    using p i by (simp add: nth_ranked_insert l)
qed

lemma column_shifted_other:
  assumes ok: "Mat_ok M" and c: "c < n_cols M" and ne: "c \<noteq> q" and p: "pos < n_rows M"
  shows "column (M\<lparr>mem := shifted (mem M) (colptr M q) (n_rows M) pos v\<rparr>) c = column M c"
proof (rule nth_equalityI)
  let ?M' = "M\<lparr>mem := shifted (mem M) (colptr M q) (n_rows M) pos v\<rparr>"
  have ok': "Mat_ok ?M'" using ok by (simp add: Mat_ok_shifted)
  have l: "length (column M c) = n_rows M" using ok c by (rule length_column)
  have l': "length (column ?M' c) = n_rows M" using length_column [OF ok', of c] c by simp
  show "length (column ?M' c) = length (column M c)" by (simp add: l l')
  fix i assume "i < length (column ?M' c)"
  then have i: "i < n_rows M" by (simp add: l')
  have "elem_at ?M' i c = elem_at M i c"
    using ne p by (intro elem_at_shifted_other) simp_all
  moreover have "elem_at ?M' i c = Inr (column ?M' c ! i)"
    using elem_at_ok [OF ok', of i c] nth_column [OF ok', of c i] i c
    by (simp add: colptr_def)
  moreover have "elem_at M i c = Inr (column M c ! i)"
    using elem_at_ok [OF ok, of i c] nth_column [OF ok, of c i] i c
    by (simp add: colptr_def)
  ultimately show "column ?M' c ! i = column M c ! i" by simp
qed

lemma sorted_by_ranked_insert:
  assumes s: "sorted_by P xs" and p: "pos < length xs"
    and before: "\<forall>i < pos. \<not> IsBetter P d (xs ! i)"
    and after: "\<forall>i. pos \<le> i \<longrightarrow> i < length xs \<longrightarrow> \<not> IsBetter P (xs ! i) d"
  shows "sorted_by P (ranked_insert pos d xs)"
  unfolding sorted_by_def
proof (intro allI impI)
  fix i j assume ij: "i < j" and j: "j < length (ranked_insert pos d xs)"
  then have jl: "j < length xs" and il: "i < length xs" using p by (simp_all add: length_ranked_insert)
  have srt: "\<And>a b. a < b \<Longrightarrow> b < length xs \<Longrightarrow> \<not> IsBetter P (xs ! b) (xs ! a)"
    using s by (simp add: sorted_by_def)
  show "\<not> IsBetter P (ranked_insert pos d xs ! j) (ranked_insert pos d xs ! i)"
  proof (cases "j < pos")
    case True
    with ij jl il p srt [of i j] show ?thesis by (simp add: nth_ranked_insert)
  next
    case False
    note jp = this
    show ?thesis
    proof (cases "j = pos")
      case True
      with ij before jl il p show ?thesis by (simp add: nth_ranked_insert)
    next
      case False
      with jp have jgt: "pos < j" by simp
      show ?thesis
      proof (cases "i < pos")
        case True
        with jgt srt [of i "j - 1"] jl il p show ?thesis by (simp add: nth_ranked_insert)
      next
        case False
        note ip = this
        show ?thesis
        proof (cases "i = pos")
          case True
          with jgt after [rule_format, of "j - 1"] jl il p show ?thesis
            by (simp add: nth_ranked_insert)
        next
          case False
          with ip ij jgt srt [of "i - 1" "j - 1"] jl il p show ?thesis
            by (simp add: nth_ranked_insert)
        qed
      qed
    qed
  qed
qed

subsection \<open>Sequences of base cases\<close>

lemma BaseCase_step:
  assumes ok: "results_ok s" and q: "q < n_cols (distances s)"
    and ql: "q < length (querySet R)" and rl: "r < length (referenceSet R)"
    and rng: "SortDistance (policy R) (column (distances s) q)
                (metric R (querySet R ! q) (referenceSet R ! r)) = NO_INSERT \<or>
              SortDistance (policy R) (column (distances s) q)
                (metric R (querySet R ! q) (referenceSet R ! r)) < n_rows (distances s)"
  shows "\<exists>d s'. BaseCase R q r s = Inr (d, s') \<and> results_ok s' \<and>
      n_rows (distances s') = n_rows (distances s) \<and>
      n_cols (distances s') = n_cols (distances s) \<and>
      (BaseCase_inserts R q r s \<longrightarrow>
         d = metric R (querySet R ! q) (referenceSet R ! r) \<and>
         SortDistance (policy R) (column (distances s) q) d < n_rows (distances s) \<and>
         column (distances s') q =
           ranked_insert (SortDistance (policy R) (column (distances s) q) d) d
             (column (distances s) q) \<and>
         column (neighbors s') q =
           ranked_insert (SortDistance (policy R) (column (distances s) q) d) r
             (column (neighbors s) q)) \<and>
      (\<not> BaseCase_inserts R q r s \<longrightarrow>
         distances s' = distances s \<and> neighbors s' = neighbors s) \<and>
      (\<forall>c. c \<noteq> q \<longrightarrow> c < n_cols (distances s) \<longrightarrow>
         column (distances s') c = column (distances s) c \<and>
         column (neighbors s') c = column (neighbors s) c)"
proof -
  let ?d = "metric R (querySet R ! q) (referenceSet R ! r)"
  let ?col = "column (distances s) q"
  let ?pos = "SortDistance (policy R) ?col ?d"
  let ?s0 = "s\<lparr>metricEvals := metricEvals s + 1\<rparr>"
  from ok have okD: "Mat_ok (distances s)" and okN: "Mat_ok (neighbors s)"
    and nr: "n_rows (neighbors s) = n_rows (distances s)"
    and nc: "n_cols (neighbors s) = n_cols (distances s)"
    by (simp_all add: results_ok_def)
  have ok0: "results_ok ?s0" using ok by (simp add: results_ok_frame)
  have ucol: "unsafe_col (distances s) q = Inr ?col" using okD q by (rule unsafe_col_column)
  consider (skip) "(sameSet R \<and> q = r) \<or> (lastQueryIndex s = q \<and> lastReferenceIndex s = r)"
    | (reject) "\<not> (sameSet R \<and> q = r)" "\<not> (lastQueryIndex s = q \<and> lastReferenceIndex s = r)"
        "?pos = NO_INSERT"
    | (insert) "\<not> (sameSet R \<and> q = r)" "\<not> (lastQueryIndex s = q \<and> lastReferenceIndex s = r)"
        "?pos \<noteq> NO_INSERT"
    by blast
  then show ?thesis
  proof cases
    case skip
    then have "\<exists>d. BaseCase R q r s = Inr (d, s)" by (auto simp: BaseCase_def)
    moreover from skip have "\<not> BaseCase_inserts R q r s" by (auto simp: BaseCase_inserts_def)
    ultimately show ?thesis using ok by auto
  next
    case reject
    then have "BaseCase R q r s = Inr (?d, ?s0\<lparr>lastQueryIndex := q, lastReferenceIndex := r,
        lastBaseCase := ?d\<rparr>)"
      using ql rl ucol by (auto simp: BaseCase_def point_col_def ebind_def Let_def)
    moreover from reject have "\<not> BaseCase_inserts R q r s" by (simp add: BaseCase_inserts_def)
    ultimately show ?thesis using ok by (auto simp: results_ok_def)
  next
    case insert
    from rng insert(3) have p: "?pos < n_rows (distances s)" by simp
    let ?D' = "(distances s)\<lparr>mem := shifted (mem (distances s)) (colptr (distances s) q)
                     (n_rows (distances s)) ?pos ?d\<rparr>"
    let ?N' = "(neighbors s)\<lparr>mem := shifted (mem (neighbors s)) (colptr (neighbors s) q)
                     (n_rows (neighbors s)) ?pos r\<rparr>"
    let ?s' = "?s0\<lparr>distances := ?D', neighbors := ?N', lastQueryIndex := q,
        lastReferenceIndex := r, lastBaseCase := ?d\<rparr>"
    have ins: "InsertNeighbor q ?pos r ?d ?s0 = Inr (?s0\<lparr>distances := ?D', neighbors := ?N'\<rparr>)"
      using InsertNeighbor_eq [OF ok0, of q ?pos r ?d] q p by simp
    have b: "BaseCase R q r s = Inr (?d, ?s')"
      using insert ql rl ucol ins by (auto simp: BaseCase_def point_col_def ebind_def Let_def)
    have ok': "results_ok ?s'"
      using ok by (simp add: results_ok_def Mat_ok_shifted)
    have cD: "column ?D' q = ranked_insert ?pos ?d ?col"
      using okD q p by (rule column_shifted_same)
    have cN: "column ?N' q = ranked_insert ?pos r (column (neighbors s) q)"
      using column_shifted_same [OF okN, of q ?pos r] q p by (simp add: nr nc)
    have oth: "column ?D' c = column (distances s) c \<and> column ?N' c = column (neighbors s) c"
      if "c \<noteq> q" "c < n_cols (distances s)" for c
      using column_shifted_other [OF okD that(2,1) p, of ?d]
        column_shifted_other [OF okN, of c q ?pos r] that p by (simp add: nr nc)
    have "BaseCase_inserts R q r s" using insert by (simp add: BaseCase_inserts_def)
    with b ok' cD cN oth p show ?thesis by (intro exI [of _ ?d] exI [of _ ?s']) simp
  qed
qed


lemma last_ranked_insert:
  assumes "pos < length xs"
  shows "last (ranked_insert pos v xs) =
         (if pos = length xs - 1 then v else xs ! (length xs - 2))"
proof -
  have ne: "ranked_insert pos v xs \<noteq> []" by (simp add: ranked_insert_def)
  have "last (ranked_insert pos v xs) = ranked_insert pos v xs ! (length xs - 1)"
    using assms by (simp add: last_conv_nth [OF ne] length_ranked_insert)
  also have "\<dots> = (if pos = length xs - 1 then v else xs ! (length xs - 2))"
    using assms by (auto simp: nth_ranked_insert numeral_2_eq_2)
  finally show ?thesis .
qed

lemma no_reappearance_Nil: "no_reappearance []"
  by (simp add: no_reappearance_def)

lemma no_reappearance_Cons:
  "no_reappearance (e # ins) \<longleftrightarrow>
     (\<forall>e' \<in> set ins. fst e = fst e' \<longrightarrow> fst (snd e') \<noteq> snd (snd e)) \<and> no_reappearance ins"
proof
  assume a: "no_reappearance (e # ins)"
  show "(\<forall>e' \<in> set ins. fst e = fst e' \<longrightarrow> fst (snd e') \<noteq> snd (snd e)) \<and> no_reappearance ins"
  proof (intro conjI ballI impI)
    fix e' assume "e' \<in> set ins" and q: "fst e = fst e'"
    then obtain j where j: "j < length ins" "ins ! j = e'" by (auto simp: in_set_conv_nth)
    from a [unfolded no_reappearance_def, rule_format, of 0 "Suc j"] j q
    show "fst (snd e') \<noteq> snd (snd e)" by simp
  next
    show "no_reappearance ins"
      unfolding no_reappearance_def
    proof (intro allI impI)
      fix i j assume "i < j" "j < length ins" "fst (ins ! i) = fst (ins ! j)"
      with a [unfolded no_reappearance_def, rule_format, of "Suc i" "Suc j"]
      show "fst (snd (ins ! j)) \<noteq> snd (snd (ins ! i))" by simp
    qed
  qed
next
  assume a: "(\<forall>e' \<in> set ins. fst e = fst e' \<longrightarrow> fst (snd e') \<noteq> snd (snd e)) \<and> no_reappearance ins"
  show "no_reappearance (e # ins)"
    unfolding no_reappearance_def
  proof (intro allI impI)
    fix i j assume ij: "i < j" and j: "j < length (e # ins)"
      and q: "fst ((e # ins) ! i) = fst ((e # ins) ! j)"
    from ij obtain j' where j': "j = Suc j'" by (cases j) simp_all
    show "fst (snd ((e # ins) ! j)) \<noteq> snd (snd ((e # ins) ! i))"
    proof (cases i)
      case 0
      with a j j' q show ?thesis by (simp add: nth_mem)
    next
      case (Suc i')
      with a [THEN conjunct2, unfolded no_reappearance_def, rule_format, of i' j'] ij j j' q
      show ?thesis by simp
    qed
  qed
qed

text \<open>One call: the lists stay sorted, no worst entry gets worse, and an inserted
  distance is better than the worst entry it met.\<close>

lemma IsBetter_asym: "IsBetter_ordering P \<Longrightarrow> IsBetter P x y \<Longrightarrow> \<not> IsBetter P y x"
proof -
  assume o: "IsBetter_ordering P" and xy: "IsBetter P x y"
  from o have "\<forall>a b. IsBetter P a b \<longrightarrow> \<not> IsBetter P b a"
    unfolding IsBetter_ordering_def by (rule conjunct1)
  then have "IsBetter P x y \<longrightarrow> \<not> IsBetter P y x" by (elim allE)
  then show ?thesis using xy by (rule mp)
qed

lemma IsBetter_irrefl: "IsBetter_ordering P \<Longrightarrow> \<not> IsBetter P x x"
  using IsBetter_asym [of P x x] by fast

lemma IsBetter_negtrans:
  "IsBetter_ordering P \<Longrightarrow> \<not> IsBetter P a b \<Longrightarrow> \<not> IsBetter P b c \<Longrightarrow> \<not> IsBetter P a c"
proof -
  assume o: "IsBetter_ordering P" and ab: "\<not> IsBetter P a b" and bc: "\<not> IsBetter P b c"
  from o have "\<forall>a b c. \<not> IsBetter P a b \<longrightarrow> \<not> IsBetter P b c \<longrightarrow> \<not> IsBetter P a c"
    unfolding IsBetter_ordering_def by (rule conjunct2)
  then have "\<not> IsBetter P a b \<longrightarrow> \<not> IsBetter P b c \<longrightarrow> \<not> IsBetter P a c" by (elim allE)
  with ab bc show ?thesis by (elim impE) assumption+
qed

lemma BaseCase_step_sorted:
  assumes ok: "results_ok s" and q: "q < n_cols (distances s)"
    and ql: "q < length (querySet R)" and rl: "r < length (referenceSet R)"
    and rk: "SortDistance_ranks (policy R)"
    and ord: "IsBetter_ordering (policy R)"
    and srt: "lists_sorted (policy R) s"
  shows "\<exists>d s'. BaseCase R q r s = Inr (d, s') \<and> results_ok s' \<and>
      n_rows (distances s') = n_rows (distances s) \<and>
      n_cols (distances s') = n_cols (distances s) \<and>
      lists_sorted (policy R) s' \<and>
      (\<forall>c < n_cols (distances s).
         \<not> IsBetter (policy R) (last (column (distances s) c)) (last (column (distances s') c))) \<and>
      (BaseCase_inserts R q r s \<longrightarrow>
         IsBetter (policy R) d (last (column (distances s) q)))"
proof -
  let ?P = "policy R"
  let ?col = "column (distances s) q"
  from ok have okD: "Mat_ok (distances s)" by (simp add: results_ok_def)
  have len: "length ?col = n_rows (distances s)" using okD q by (rule length_column)
  have sq: "sorted_by ?P ?col" using srt q by (simp add: lists_sorted_def)
  have rng: "SortDistance ?P ?col (metric R (querySet R ! q) (referenceSet R ! r)) = NO_INSERT \<or>
      SortDistance ?P ?col (metric R (querySet R ! q) (referenceSet R ! r)) < n_rows (distances s)"
    using rk [unfolded SortDistance_ranks_def, rule_format, OF sq,
        of "metric R (querySet R ! q) (referenceSet R ! r)"] len
    by (cases "SortDistance ?P ?col (metric R (querySet R ! q) (referenceSet R ! r)) = NO_INSERT")
      simp_all
  from BaseCase_step [OF ok q ql rl rng] obtain d s' where
    st: "BaseCase R q r s = Inr (d, s') \<and> results_ok s' \<and>
      n_rows (distances s') = n_rows (distances s) \<and>
      n_cols (distances s') = n_cols (distances s) \<and>
      (BaseCase_inserts R q r s \<longrightarrow>
         d = metric R (querySet R ! q) (referenceSet R ! r) \<and>
         SortDistance (policy R) (column (distances s) q) d < n_rows (distances s) \<and>
         column (distances s') q =
           ranked_insert (SortDistance (policy R) (column (distances s) q) d) d
             (column (distances s) q) \<and>
         column (neighbors s') q =
           ranked_insert (SortDistance (policy R) (column (distances s) q) d) r
             (column (neighbors s) q)) \<and>
      (\<not> BaseCase_inserts R q r s \<longrightarrow>
         distances s' = distances s \<and> neighbors s' = neighbors s) \<and>
      (\<forall>c. c \<noteq> q \<longrightarrow> c < n_cols (distances s) \<longrightarrow>
         column (distances s') c = column (distances s) c \<and>
         column (neighbors s') c = column (neighbors s) c)"
    by (elim exE)
  from st have b: "BaseCase R q r s = Inr (d, s')" and ok': "results_ok s'"
    and nr: "n_rows (distances s') = n_rows (distances s)"
    and nc: "n_cols (distances s') = n_cols (distances s)" by simp_all
  from st have i0: "BaseCase_inserts R q r s \<longrightarrow>
         d = metric R (querySet R ! q) (referenceSet R ! r) \<and>
         SortDistance (policy R) (column (distances s) q) d < n_rows (distances s) \<and>
         column (distances s') q =
           ranked_insert (SortDistance (policy R) (column (distances s) q) d) d
             (column (distances s) q) \<and>
         column (neighbors s') q =
           ranked_insert (SortDistance (policy R) (column (distances s) q) d) r
             (column (neighbors s) q)"
    by (elim conjE)
  have ins: "d = metric R (querySet R ! q) (referenceSet R ! r) \<and>
         SortDistance ?P ?col d < n_rows (distances s) \<and>
         column (distances s') q = ranked_insert (SortDistance ?P ?col d) d ?col"
    if t: "BaseCase_inserts R q r s"
  proof -
    from i0 t have "d = metric R (querySet R ! q) (referenceSet R ! r) \<and>
         SortDistance (policy R) (column (distances s) q) d < n_rows (distances s) \<and>
         column (distances s') q =
           ranked_insert (SortDistance (policy R) (column (distances s) q) d) d
             (column (distances s) q) \<and>
         column (neighbors s') q =
           ranked_insert (SortDistance (policy R) (column (distances s) q) d) r
             (column (neighbors s) q)"
      by (rule mp)
    then show ?thesis by (elim conjE) (intro conjI, assumption+)
  qed
  from st have nins: "\<not> BaseCase_inserts R q r s \<Longrightarrow> distances s' = distances s" by simp
  from st have oth: "\<And>c. c \<noteq> q \<Longrightarrow> c < n_cols (distances s) \<Longrightarrow>
         column (distances s') c = column (distances s) c"
    by simp
  have irr: "\<not> IsBetter ?P x x" for x using ord by (rule IsBetter_irrefl)
  have asym: "IsBetter ?P x y \<Longrightarrow> \<not> IsBetter ?P y x" for x y
    using ord by (rule IsBetter_asym)
  show ?thesis
  proof (cases "BaseCase_inserts R q r s")
    case False
    from nins [OF False] srt have "lists_sorted ?P s'" by (simp add: lists_sorted_def)
    moreover have "\<forall>c < n_cols (distances s).
         \<not> IsBetter ?P (last (column (distances s) c)) (last (column (distances s') c))"
      using nins [OF False] irr by simp
    ultimately show ?thesis
      using b ok' nr nc False by (intro exI [of _ d] exI [of _ s']) simp
  next
    case True
    let ?pos = "SortDistance ?P ?col d"
    note i1 = ins [OF True]
    from i1 have dm: "d = metric R (querySet R ! q) (referenceSet R ! r)" by (rule conjunct1)
    from i1 have p: "?pos < n_rows (distances s)" by (rule conjunct2 [THEN conjunct1])
    from i1 have cq: "column (distances s') q = ranked_insert ?pos d ?col"
      by (rule conjunct2 [THEN conjunct2])
    from True dm have ni: "?pos \<noteq> NO_INSERT" by (simp add: BaseCase_inserts_def)
    from rk [unfolded SortDistance_ranks_def, rule_format, OF sq ni]
    have better: "IsBetter ?P d (last ?col)"
      and before: "\<forall>i < ?pos. \<not> IsBetter ?P d (?col ! i)"
      and after: "\<forall>i. ?pos \<le> i \<longrightarrow> i < length ?col \<longrightarrow> \<not> IsBetter ?P (?col ! i) d"
      by simp_all
    have pl: "?pos < length ?col" using p len by simp
    have sq': "sorted_by ?P (column (distances s') q)"
      unfolding cq using sq pl before after by (rule sorted_by_ranked_insert)
    have sorted': "lists_sorted ?P s'"
      unfolding lists_sorted_def
    proof (intro allI impI)
      fix c assume "c < n_cols (distances s')"
      then have c: "c < n_cols (distances s)" by (simp add: nc)
      show "sorted_by ?P (column (distances s') c)"
      proof (cases "c = q")
        case True with sq' show ?thesis by simp
      next
        case False
        with oth [OF False c] srt c show ?thesis by (simp add: lists_sorted_def)
      qed
    qed
    have lri: "last (column (distances s') q) =
        (if ?pos = length ?col - 1 then d else ?col ! (length ?col - 2))"
      unfolding cq by (rule last_ranked_insert [OF pl])
    have lastq: "\<not> IsBetter ?P (last ?col) (last (column (distances s') q))"
    proof (cases "?pos = length ?col - 1")
      case True
      with lri have "last (column (distances s') q) = d" by simp
      with asym [OF better] show ?thesis by simp
    next
      case False
      with pl have two: "length ?col - 2 < length ?col - 1" "length ?col - 1 < length ?col"
        by simp_all
      have ne: "?col \<noteq> []" using pl by auto
      from False lri have "last (column (distances s') q) = ?col ! (length ?col - 2)" by simp
      with sq [unfolded sorted_by_def, rule_format, OF two]
      show ?thesis by (simp add: last_conv_nth [OF ne])
    qed
    have tight: "\<forall>c < n_cols (distances s).
         \<not> IsBetter ?P (last (column (distances s) c)) (last (column (distances s') c))"
    proof (intro allI impI)
      fix c assume c: "c < n_cols (distances s)"
      show "\<not> IsBetter ?P (last (column (distances s) c)) (last (column (distances s') c))"
      proof (cases "c = q")
        case True with lastq show ?thesis by simp
      next
        case False
        with oth [OF False c] irr show ?thesis by simp
      qed
    qed
    from b ok' nr nc sorted' tight better show ?thesis
      by (intro exI [of _ d] exI [of _ s']) simp
  qed
qed


lemma BaseCase_run_invariant:
  assumes rk: "SortDistance_ranks (policy R)" and ord: "IsBetter_ordering (policy R)"
  shows "results_ok s \<Longrightarrow> lists_sorted (policy R) s \<Longrightarrow>
    (\<forall>c \<in> set cs. fst c < n_cols (distances s) \<and> fst c < length (querySet R) \<and>
        snd c < length (referenceSet R)) \<Longrightarrow>
    \<exists>ins s'. BaseCase_run R cs s = Inr (ins, s') \<and> results_ok s' \<and>
      n_rows (distances s') = n_rows (distances s) \<and>
      n_cols (distances s') = n_cols (distances s) \<and>
      lists_sorted (policy R) s' \<and>
      (\<forall>c < n_cols (distances s).
         \<not> IsBetter (policy R) (last (column (distances s) c)) (last (column (distances s') c))) \<and>
      (\<forall>e \<in> set ins. fst e < n_cols (distances s) \<and>
         IsBetter (policy R) (fst (fst (snd e))) (last (column (distances s) (fst e)))) \<and>
      no_reappearance ins"
proof (induction cs arbitrary: s)
  case Nil
  show ?case
    using Nil.prems IsBetter_irrefl [OF ord]
    by (intro exI [of _ "[]"] exI [of _ s]) (simp add: no_reappearance_Nil)
next
  case (Cons c cs)
  let ?P = "policy R"
  obtain q r where c: "c = (q, r)" by (cases c)
  from Cons.prems(3) c have q: "q < n_cols (distances s)" and ql: "q < length (querySet R)"
    and rl: "r < length (referenceSet R)" by simp_all
  from BaseCase_step_sorted [OF Cons.prems(1) q ql rl rk ord Cons.prems(2)]
  obtain d s1 where st: "BaseCase R q r s = Inr (d, s1) \<and> results_ok s1 \<and>
      n_rows (distances s1) = n_rows (distances s) \<and>
      n_cols (distances s1) = n_cols (distances s) \<and>
      lists_sorted (policy R) s1 \<and>
      (\<forall>c < n_cols (distances s).
         \<not> IsBetter (policy R) (last (column (distances s) c)) (last (column (distances s1) c))) \<and>
      (BaseCase_inserts R q r s \<longrightarrow>
         IsBetter (policy R) d (last (column (distances s) q)))"
    by (elim exE)
  then have b: "BaseCase R q r s = Inr (d, s1)" and ok1: "results_ok s1"
    and nr1: "n_rows (distances s1) = n_rows (distances s)"
    and nc1: "n_cols (distances s1) = n_cols (distances s)"
    and srt1: "lists_sorted ?P s1"
    and tight1: "\<forall>c < n_cols (distances s).
         \<not> IsBetter ?P (last (column (distances s) c)) (last (column (distances s1) c))"
    and better: "BaseCase_inserts R q r s \<longrightarrow> IsBetter ?P d (last (column (distances s) q))"
    by simp_all
  have valid1: "\<forall>c \<in> set cs. fst c < n_cols (distances s1) \<and> fst c < length (querySet R) \<and>
        snd c < length (referenceSet R)"
    using Cons.prems(3) by (simp add: nc1)
  from Cons.IH [OF ok1 srt1 valid1] obtain ins s' where
    ih: "BaseCase_run R cs s1 = Inr (ins, s') \<and> results_ok s' \<and>
      n_rows (distances s') = n_rows (distances s1) \<and>
      n_cols (distances s') = n_cols (distances s1) \<and>
      lists_sorted (policy R) s' \<and>
      (\<forall>c < n_cols (distances s1).
         \<not> IsBetter (policy R) (last (column (distances s1) c)) (last (column (distances s') c))) \<and>
      (\<forall>e \<in> set ins. fst e < n_cols (distances s1) \<and>
         IsBetter (policy R) (fst (fst (snd e))) (last (column (distances s1) (fst e)))) \<and>
      no_reappearance ins"
    by (elim exE)
  then have run: "BaseCase_run R cs s1 = Inr (ins, s')" and ok': "results_ok s'"
    and nr': "n_rows (distances s') = n_rows (distances s1)"
    and nc': "n_cols (distances s') = n_cols (distances s1)"
    and srt': "lists_sorted ?P s'"
    and tight': "\<forall>c < n_cols (distances s1).
         \<not> IsBetter ?P (last (column (distances s1) c)) (last (column (distances s') c))"
    and insA: "\<forall>e \<in> set ins. fst e < n_cols (distances s1) \<and>
         IsBetter ?P (fst (fst (snd e))) (last (column (distances s1) (fst e)))"
    and nore: "no_reappearance ins"
    by simp_all
  let ?ev = "(q, (d, r), (last (column (distances s) q), last (column (neighbors s) q)))"
  let ?ins = "(if BaseCase_inserts R q r s then [?ev] else []) @ ins"
  have res: "BaseCase_run R (c # cs) s = Inr (?ins, s')"
    by (simp add: c b run ebind_def)
  have tight: "\<forall>c < n_cols (distances s).
         \<not> IsBetter ?P (last (column (distances s) c)) (last (column (distances s') c))"
  proof (intro allI impI)
    fix c assume cc: "c < n_cols (distances s)"
    from tight1 cc have "\<not> IsBetter ?P (last (column (distances s) c)) (last (column (distances s1) c))"
      by simp
    moreover from tight' cc nc1
    have "\<not> IsBetter ?P (last (column (distances s1) c)) (last (column (distances s') c))"
      by simp
    ultimately show "\<not> IsBetter ?P (last (column (distances s) c)) (last (column (distances s') c))"
      by (rule IsBetter_negtrans [OF ord])
  qed
  have old: "fst e < n_cols (distances s) \<and>
      IsBetter ?P (fst (fst (snd e))) (last (column (distances s) (fst e)))"
    if e: "e \<in> set ins" for e
  proof -
    from insA e have ec: "fst e < n_cols (distances s)"
      and eb: "IsBetter ?P (fst (fst (snd e))) (last (column (distances s1) (fst e)))"
      by (simp_all add: nc1)
    from tight1 ec
    have t: "\<not> IsBetter ?P (last (column (distances s) (fst e))) (last (column (distances s1) (fst e)))"
      by simp
    have "IsBetter ?P (fst (fst (snd e))) (last (column (distances s) (fst e)))"
    proof (rule ccontr)
      assume "\<not> IsBetter ?P (fst (fst (snd e))) (last (column (distances s) (fst e)))"
      from IsBetter_negtrans [OF ord this t] eb show False by simp
    qed
    with ec show ?thesis by simp
  qed
  have insA': "\<forall>e \<in> set ?ins. fst e < n_cols (distances s) \<and>
         IsBetter ?P (fst (fst (snd e))) (last (column (distances s) (fst e)))"
    using old better q by auto
  have nore': "no_reappearance ?ins"
  proof (cases "BaseCase_inserts R q r s")
    case False
    with nore show ?thesis by simp
  next
    case True
    have "fst (snd e) \<noteq> snd (snd ?ev)" if e: "e \<in> set ins" and eq: "fst ?ev = fst e" for e
    proof
      assume same: "fst (snd e) = snd (snd ?ev)"
      from old [OF e] eq have "IsBetter ?P (fst (fst (snd e))) (last (column (distances s) q))"
        by simp
      with same have "IsBetter ?P (last (column (distances s) q)) (last (column (distances s) q))"
        by simp
      with IsBetter_irrefl [OF ord] show False by simp
    qed
    with nore have "no_reappearance (?ev # ins)" by (simp add: no_reappearance_Cons)
    with True show ?thesis by simp
  qed
  from res ok' nr' nr1 nc' nc1 srt' tight insA' nore'
  show ?case by (intro exI [of _ ?ins] exI [of _ s']) simp
qed

lemma ex_results_ok: "results_ok ex_state"
  by (simp add: results_ok_def Mat_ok_def ex_state_def)

lemma NN_ordering: "IsBetter_ordering NearestNeighborSort"
  by (simp add: IsBetter_ordering_def NN_simps)

lemma NN_ranks: "SortDistance_ranks (NearestNeighborSort :: 'p SortPolicy)"
  unfolding SortDistance_ranks_def
proof (intro allI impI)
  fix list :: "real list" and d :: real
  let ?NN = "NearestNeighborSort :: 'p SortPolicy"
  let ?P = "\<lambda>x. \<not> d < x"
  let ?pos = "length (takeWhile ?P list)"
  assume srt: "sorted_by ?NN list" and ni: "SortDistance ?NN list d \<noteq> NO_INSERT"
  from ni have ne: "list \<noteq> []" and dl: "d < last list"
    and pos: "SortDistance ?NN list d = ?pos"
    by (auto simp: NN_simps split: if_splits)
  have "SortDistance ?NN list d = NO_INSERT \<or> SortDistance ?NN list d < length list"
    using NN_in_range [where ?'a = 'p] unfolding SortDistance_in_range_def by (elim allE)
  with ni pos have pl: "?pos < length list" by simp
  have before: "\<not> d < list ! i" if "i < ?pos" for i
  proof -
    from that have "takeWhile ?P list ! i \<in> set (takeWhile ?P list)" by (rule nth_mem)
    then have "?P (takeWhile ?P list ! i)" by (rule set_takeWhileD [THEN conjunct2])
    with that show ?thesis by (simp add: takeWhile_nth)
  qed
  from pl have at_pos: "d < list ! ?pos" using nth_length_takeWhile [of ?P list] by simp
  have after: "\<not> list ! i < d" if "?pos \<le> i" "i < length list" for i
  proof (cases "i = ?pos")
    case True with at_pos show ?thesis by simp
  next
    case False
    with that have "?pos < i" by simp
    from srt [unfolded sorted_by_def, rule_format, OF this that(2)]
    have "\<not> list ! i < list ! ?pos" by (simp add: NN_simps)
    with at_pos show ?thesis by simp
  qed
  show "SortDistance ?NN list d < length list \<and>
        IsBetter ?NN d (last list) \<and>
        (\<forall>i < SortDistance ?NN list d. \<not> IsBetter ?NN d (list ! i)) \<and>
        (\<forall>i. SortDistance ?NN list d \<le> i \<longrightarrow> i < length list \<longrightarrow>
           \<not> IsBetter ?NN (list ! i) d)"
    unfolding pos using pl dl before after by (simp add: NN_simps)
qed

lemma ex_columns:
  "column (distances ex_state) 0 = [1, 7, 12]" "column (distances ex_state) (Suc 0) = [1, 2, 6]"
  "column (distances ex_state) 2 = [2, 3, 9]" "column (distances ex_state) 3 = [4, 5, 7]"
  "column (distances ex_state) 4 = [5, 9, 11]"
  by (simp_all add: column_def ex_state_def colptr_def)

lemma sorted_by_NN_3: "sorted_by NearestNeighborSort [a, b, c] \<longleftrightarrow> a \<le> b \<and> b \<le> c"
  unfolding sorted_by_def NN_simps
proof
  assume h: "\<forall>i j. i < j \<longrightarrow> j < length [a, b, c] \<longrightarrow> \<not> [a, b, c] ! j < [a, b, c] ! i"
  from h [rule_format, of 0 1] h [rule_format, of 1 2] show "a \<le> b \<and> b \<le> c" by simp
next
  assume h: "a \<le> b \<and> b \<le> c"
  show "\<forall>i j. i < j \<longrightarrow> j < length [a, b, c] \<longrightarrow> \<not> [a, b, c] ! j < [a, b, c] ! i"
  proof (intro allI impI)
    fix i j :: nat assume "i < j" "j < length [a, b, c]"
    then have "(i = 0 \<and> j = 1) \<or> (i = 0 \<and> j = 2) \<or> (i = 1 \<and> j = 2)" by simp arith
    with h show "\<not> [a, b, c] ! j < [a, b, c] ! i" by auto
  qed
qed

lemma ex_lists_sorted: "lists_sorted (policy ex_Rules) ex_state"
  unfolding lists_sorted_def
proof (intro allI impI)
  fix q assume "q < n_cols (distances ex_state)"
  then have "q = 0 \<or> q = Suc 0 \<or> q = 2 \<or> q = 3 \<or> q = 4" by (simp add: ex_state_def) arith
  then show "sorted_by (policy ex_Rules) (column (distances ex_state) q)"
    by (auto simp: ex_columns ex_Rules_simps sorted_by_NN_3)
qed

text \<open>
  Claim C8.  Let every candidate list be sorted by the policy, let \<^verbatim>\<open>SortDistance\<close> answer
  ranks as the policy's search over a sorted list does, and let "better" be an
  ordering.  Then any sequence of \<^verbatim>\<open>BaseCase\<close> calls with indices in range returns, and
  afterwards the matrices have the shape they had, every candidate list still has
  exactly \<open>k\<close> entries and is still sorted, and no insertion made on the way put back an
  entry that an earlier insertion had shifted out of row \<open>k - 1\<close> of the same list.
\<close>

theorem candidate_list_invariant:
  assumes "results_ok s" and "lists_sorted (policy R) s"
    and "SortDistance_ranks (policy R)" and "IsBetter_ordering (policy R)"
    and "\<forall>c \<in> set calls. fst c < n_cols (distances s) \<and> fst c < length (querySet R) \<and>
           snd c < length (referenceSet R)"
  shows "\<exists>ins s'. BaseCase_run R calls s = Inr (ins, s') \<and> results_ok s' \<and>
      n_rows (distances s') = n_rows (distances s) \<and>
      n_cols (distances s') = n_cols (distances s) \<and>
      (\<forall>q < n_cols (distances s).
         length (column (distances s') q) = n_rows (distances s) \<and>
         length (column (neighbors s') q) = n_rows (distances s)) \<and>
      lists_sorted (policy R) s' \<and> no_reappearance ins"
proof -
  from BaseCase_run_invariant [OF assms(3,4,1,2,5)] obtain ins s' where
    r: "BaseCase_run R calls s = Inr (ins, s')" and ok': "results_ok s'"
    and nr: "n_rows (distances s') = n_rows (distances s)"
    and nc: "n_cols (distances s') = n_cols (distances s)"
    and srt: "lists_sorted (policy R) s'" and nore: "no_reappearance ins"
    by (elim exE conjE)
  from ok' have okD: "Mat_ok (distances s')" and okN: "Mat_ok (neighbors s')"
    and nrN: "n_rows (neighbors s') = n_rows (distances s')"
    and ncN: "n_cols (neighbors s') = n_cols (distances s')"
    by (simp_all add: results_ok_def)
  have len: "length (column (distances s') q) = n_rows (distances s) \<and>
         length (column (neighbors s') q) = n_rows (distances s)"
    if "q < n_cols (distances s)" for q
    using that length_column [OF okD, of q] length_column [OF okN, of q]
    by (simp add: nr nc nrN ncN)
  from r ok' nr nc len srt nore show ?thesis
    by (intro exI [of _ ins] exI [of _ s']) simp
qed

lemma ex_after_columns:
  "column (distances ex_state_after) 0 = [1, 3, 7]"
  "column (neighbors ex_state_after) 0 = [1, 2, 3]"
  "column (neighbors ex_state) 0 = [1, 3, 4]"
  by (simp_all add: column_def ex_state_after_def ex_state_def colptr_def)

lemma ex_BaseCase_0_1: "\<exists>s'. BaseCase ex_Rules 0 1 ex_state_after = Inr (1, s')"
  by (simp add: BaseCase_def ex_Rules_simps NN_simps ex_state_after_def ex_points_def
      point_col_def ebind_def unsafe_col_def colptr_def NO_INSERT_val InsertNeighbor_def
      size_t_sub_def SIZE_MOD_def int_of_size_t_def memmove_def elem_set_def Let_def)

lemma ex_run:
  "\<exists>s'. BaseCase_run ex_Rules [(0, 2), (0, 1)] ex_state =
         Inr ([(0, (3, 2), (12, 4)), (0, (1, 1), (7, 3))], s')"
proof -
  from ex_BaseCase_0_1 obtain s' where b: "BaseCase ex_Rules 0 1 ex_state_after = Inr (1, s')"
    by blast
  have i1: "BaseCase_inserts ex_Rules 0 2 ex_state"
    by (simp add: BaseCase_inserts_def ex_Rules_simps ex_columns NN_simps NO_INSERT_val
        ex_points_def ex_dist_simps(2,3))
  have i2: "BaseCase_inserts ex_Rules 0 1 ex_state_after"
    by (simp add: BaseCase_inserts_def ex_Rules_simps ex_after_columns NN_simps NO_INSERT_val
        ex_points_def) (simp add: ex_state_after_def)
  show ?thesis
    using b i1 i2 by (simp add: ex_BaseCase_0_2 ebind_def ex_columns ex_after_columns)
qed

theorem candidate_list_invariant_witness:
  "results_ok ex_state \<and> lists_sorted (policy ex_Rules) ex_state \<and>
   SortDistance_ranks (policy ex_Rules) \<and> IsBetter_ordering (policy ex_Rules) \<and>
   (\<exists>s'. BaseCase_run ex_Rules [(0, 2), (0, 1)] ex_state =
           Inr ([(0, (3, 2), (12, 4)), (0, (1, 1), (7, 3))], s') \<and>
         results_ok s' \<and> n_rows (distances s') = 3 \<and> n_cols (distances s') = 5 \<and>
         length (column (distances s') 0) = 3 \<and> length (column (neighbors s') 0) = 3 \<and>
         lists_sorted (policy ex_Rules) s') \<and>
   no_reappearance [(0, (3, 2), (12, 4)), (0, (1, 1), (7, 3))]"
proof -
  have h: "results_ok ex_state" "lists_sorted (policy ex_Rules) ex_state"
    "SortDistance_ranks (policy ex_Rules)" "IsBetter_ordering (policy ex_Rules)"
    "\<forall>c \<in> set [(0, 2), (0, 1)]. fst c < n_cols (distances ex_state) \<and>
        fst c < length (querySet ex_Rules) \<and> snd c < length (referenceSet ex_Rules)"
    using ex_results_ok ex_lists_sorted NN_ranks [where ?'p = real]
      NN_ordering [where ?'a = real]
    by (simp_all add: ex_Rules_simps ex_dist_simps ex_points_def)
  from candidate_list_invariant [OF h] obtain ins s' where
    r: "BaseCase_run ex_Rules [(0, 2), (0, 1)] ex_state = Inr (ins, s')"
    and ok': "results_ok s'"
    and nr: "n_rows (distances s') = n_rows (distances ex_state)"
    and nc: "n_cols (distances s') = n_cols (distances ex_state)"
    and len: "\<forall>q < n_cols (distances ex_state).
         length (column (distances s') q) = n_rows (distances ex_state) \<and>
         length (column (neighbors s') q) = n_rows (distances ex_state)"
    and srt: "lists_sorted (policy ex_Rules) s'" and nore: "no_reappearance ins"
    by (elim exE conjE)
  from ex_run r have ins: "ins = [(0, (3, 2), (12, 4)), (0, (1, 1), (7, 3))]" by auto
  from len [rule_format, of 0]
  have l0: "length (column (distances s') 0) = 3 \<and> length (column (neighbors s') 0) = 3"
    by (simp add: ex_dist_simps)
  from r ok' nr nc l0 srt nore h(1-4) show ?thesis
    unfolding ins by (intro conjI exI [of _ s']) (simp_all add: ex_dist_simps)
qed

subsection \<open>Bounds along a search\<close>

lemma tighter_refl: "IsBetter_ordering P \<Longrightarrow> tighter P a a"
  unfolding tighter_def by (rule IsBetter_irrefl)

lemma tighter_trans:
  "IsBetter_ordering P \<Longrightarrow> tighter P a b \<Longrightarrow> tighter P b c \<Longrightarrow> tighter P a c"
  unfolding tighter_def using IsBetter_negtrans [of P c b a] by simp

lemma tighter_total: "IsBetter_ordering P \<Longrightarrow> \<not> tighter P a b \<Longrightarrow> tighter P b a"
  unfolding tighter_def using IsBetter_asym [of P b a] by simp

lemma best_cases: "best P a b = a \<or> best P a b = b"
  by (simp add: best_def)

lemma worst_cases: "worst P a b = a \<or> worst P a b = b"
  by (simp add: worst_def)

lemma best_tighter1: "IsBetter_ordering P \<Longrightarrow> tighter P (best P a b) a"
  using tighter_refl [of P a] by (simp add: best_def tighter_def)

lemma best_tighter2: "IsBetter_ordering P \<Longrightarrow> tighter P (best P a b) b"
  using tighter_refl [of P b] IsBetter_asym [of P a b] by (simp add: best_def tighter_def)

lemma worst_looser1: "IsBetter_ordering P \<Longrightarrow> tighter P a (worst P a b)"
  using tighter_refl [of P a] IsBetter_asym [of P a b] by (simp add: worst_def tighter_def)

lemma worst_looser2: "IsBetter_ordering P \<Longrightarrow> tighter P b (worst P a b)"
  using tighter_refl [of P b] by (simp add: worst_def tighter_def)

lemma best_mono:
  assumes o: "IsBetter_ordering P" and a: "tighter P a a'" and b: "tighter P b b'"
  shows "tighter P (best P a b) (best P a' b')"
proof -
  have 1: "tighter P (best P a b) a'"
    using tighter_trans [OF o best_tighter1 [OF o] a] .
  have 2: "tighter P (best P a b) b'"
    using tighter_trans [OF o best_tighter2 [OF o] b] .
  from best_cases [of P a' b'] 1 2 show ?thesis by auto
qed

lemma worst_mono:
  assumes o: "IsBetter_ordering P" and a: "tighter P a a'" and b: "tighter P b b'"
  shows "tighter P (worst P a b) (worst P a' b')"
proof -
  have 1: "tighter P a (worst P a' b')"
    using tighter_trans [OF o a worst_looser1 [OF o]] .
  have 2: "tighter P b (worst P a' b')"
    using tighter_trans [OF o b worst_looser2 [OF o]] .
  from worst_cases [of P a b] 1 2 show ?thesis by auto
qed

lemma foldl_worst_mono:
  assumes o: "IsBetter_ordering P"
  shows "list_all2 (tighter P) xs ys \<Longrightarrow> tighter P a b \<Longrightarrow>
         tighter P (foldl (worst P) a xs) (foldl (worst P) b ys)"
proof (induction xs ys arbitrary: a b rule: list_all2_induct)
  case Nil
  then show ?case by simp
next
  case (Cons x xs y ys)
  from worst_mono [OF o Cons.prems Cons.hyps(1)] Cons.IH show ?case by simp
qed

lemma foldl_best_mono:
  assumes o: "IsBetter_ordering P"
  shows "list_all2 (tighter P) xs ys \<Longrightarrow> tighter P a b \<Longrightarrow>
         tighter P (foldl (\<lambda>acc d. best P d acc) a xs) (foldl (\<lambda>acc d. best P d acc) b ys)"
proof (induction xs ys arbitrary: a b rule: list_all2_induct)
  case Nil
  then show ?case by simp
next
  case (Cons x xs y ys)
  from best_mono [OF o Cons.hyps(1) Cons.prems] Cons.IH show ?case by simp
qed

lemma list_all2_map_same:
  "(\<forall>x \<in> set xs. R (f x) (g x)) \<Longrightarrow> list_all2 R (map f xs) (map g xs)"
  by (induction xs) simp_all

lemma next_first_eq:
  "next_first R n s =
     best (policy R)
       (worst (policy R)
          (foldl (worst (policy R)) (BestDistance (policy R))
             (map (kth_distance (distances s)) (Points (nodes s n))))
          (foldl (worst (policy R)) (BestDistance (policy R))
             (map (\<lambda>c. FirstBound (Stat (nodes s c))) (Children (nodes s n)))))
       (case Parent (nodes s n) of
          Some p \<Rightarrow> FirstBound (Stat (nodes s p)) | None \<Rightarrow> WorstDistance (policy R))"
  by (simp add: next_first_def five_bound_update_def update_Stat_def Let_def)

lemma next_second_eq:
  "next_second R n s =
     best (policy R)
       (best (policy R)
          (foldl (\<lambda>acc b. best (policy R) b acc) (WorstDistance (policy R))
             (map (\<lambda>c. CombineWorst (policy R) (SecondBound (Stat (nodes s c)))
                     (2 * (FurthestDescendantDistance (nodes s n) -
                           FurthestDescendantDistance (nodes s c))))
                (Children (nodes s n))))
          (CombineWorst (policy R)
             (foldl (\<lambda>acc d. best (policy R) d acc) (WorstDistance (policy R))
                (map (kth_distance (distances s)) (Points (nodes s n))))
             (2 * FurthestDescendantDistance (nodes s n))))
       (case Parent (nodes s n) of
          Some p \<Rightarrow> SecondBound (Stat (nodes s p)) | None \<Rightarrow> WorstDistance (policy R))"
  by (simp add: next_second_def five_bound_update_def update_Stat_def Let_def)

lemma five_bound_update_next:
  "five_bound_update FirstBound R n s =
     (best (policy R) (next_first R n s) (next_second R n s),
      update_Stat n
        (\<lambda>st. st\<lparr>FirstBound := next_first R n s, SecondBound := next_second R n s,
                  Bound := best (policy R) (next_first R n s) (next_second R n s)\<rparr>) s)"
  by (simp add: next_first_def next_second_def five_bound_update_def update_Stat_def Let_def)

text \<open>What \<^verbatim>\<open>CalculateBound\<close> would store is monotone in everything it reads.\<close>

lemma next_bounds_mono:
  assumes o: "IsBetter_ordering (policy R)" and cw: "CombineWorst_monotone (policy R)"
    and tree: "same_tree s t"
    and kth: "\<forall>p \<in> set (Points (nodes s n)).
       tighter (policy R) (kth_distance (distances t) p) (kth_distance (distances s) p)"
    and stat: "\<forall>m. tighter (policy R) (FirstBound (Stat (nodes t m))) (FirstBound (Stat (nodes s m))) \<and>
       tighter (policy R) (SecondBound (Stat (nodes t m))) (SecondBound (Stat (nodes s m)))"
  shows "tighter (policy R) (next_first R n t) (next_first R n s) \<and>
         tighter (policy R) (next_second R n t) (next_second R n s)"
proof -
  let ?P = "policy R"
  from tree have par: "Parent (nodes t n) = Parent (nodes s n)"
    and ch: "Children (nodes t n) = Children (nodes s n)"
    and pts: "Points (nodes t n) = Points (nodes s n)"
    and fdd: "\<And>m. FurthestDescendantDistance (nodes t m) = FurthestDescendantDistance (nodes s m)"
    by (simp_all add: same_tree_def)
  have refl: "\<And>a. tighter ?P a a" using o by (rule tighter_refl)
  have k2: "list_all2 (tighter ?P) (map (kth_distance (distances t)) (Points (nodes s n)))
      (map (kth_distance (distances s)) (Points (nodes s n)))"
    using kth by (intro list_all2_map_same) simp
  have f2: "list_all2 (tighter ?P)
      (map (\<lambda>c. FirstBound (Stat (nodes t c))) (Children (nodes s n)))
      (map (\<lambda>c. FirstBound (Stat (nodes s c))) (Children (nodes s n)))"
    using stat by (intro list_all2_map_same) simp
  have a2: "list_all2 (tighter ?P)
      (map (\<lambda>c. CombineWorst ?P (SecondBound (Stat (nodes t c)))
             (2 * (FurthestDescendantDistance (nodes s n) - FurthestDescendantDistance (nodes s c))))
         (Children (nodes s n)))
      (map (\<lambda>c. CombineWorst ?P (SecondBound (Stat (nodes s c)))
             (2 * (FurthestDescendantDistance (nodes s n) - FurthestDescendantDistance (nodes s c))))
         (Children (nodes s n)))"
  proof (intro list_all2_map_same ballI)
    fix c
    from stat have "tighter ?P (SecondBound (Stat (nodes t c))) (SecondBound (Stat (nodes s c)))"
      by simp
    with cw show "tighter ?P
        (CombineWorst ?P (SecondBound (Stat (nodes t c)))
           (2 * (FurthestDescendantDistance (nodes s n) - FurthestDescendantDistance (nodes s c))))
        (CombineWorst ?P (SecondBound (Stat (nodes s c)))
           (2 * (FurthestDescendantDistance (nodes s n) - FurthestDescendantDistance (nodes s c))))"
      unfolding CombineWorst_monotone_def by blast
  qed
  have b4: "tighter ?P
      (case Parent (nodes s n) of Some p \<Rightarrow> FirstBound (Stat (nodes t p)) | None \<Rightarrow> WorstDistance ?P)
      (case Parent (nodes s n) of Some p \<Rightarrow> FirstBound (Stat (nodes s p)) | None \<Rightarrow> WorstDistance ?P)"
    using stat refl by (simp split: option.splits)
  have b5: "tighter ?P
      (case Parent (nodes s n) of Some p \<Rightarrow> SecondBound (Stat (nodes t p)) | None \<Rightarrow> WorstDistance ?P)
      (case Parent (nodes s n) of Some p \<Rightarrow> SecondBound (Stat (nodes s p)) | None \<Rightarrow> WorstDistance ?P)"
    using stat refl by (simp split: option.splits)
  have b1: "tighter ?P
      (worst ?P (foldl (worst ?P) (BestDistance ?P) (map (kth_distance (distances t)) (Points (nodes s n))))
         (foldl (worst ?P) (BestDistance ?P) (map (\<lambda>c. FirstBound (Stat (nodes t c))) (Children (nodes s n)))))
      (worst ?P (foldl (worst ?P) (BestDistance ?P) (map (kth_distance (distances s)) (Points (nodes s n))))
         (foldl (worst ?P) (BestDistance ?P) (map (\<lambda>c. FirstBound (Stat (nodes s c))) (Children (nodes s n)))))"
    by (intro worst_mono [OF o] foldl_worst_mono [OF o] k2 f2 refl)
  have b2: "tighter ?P
      (CombineWorst ?P (foldl (\<lambda>acc d. best ?P d acc) (WorstDistance ?P)
          (map (kth_distance (distances t)) (Points (nodes s n))))
        (2 * FurthestDescendantDistance (nodes s n)))
      (CombineWorst ?P (foldl (\<lambda>acc d. best ?P d acc) (WorstDistance ?P)
          (map (kth_distance (distances s)) (Points (nodes s n))))
        (2 * FurthestDescendantDistance (nodes s n)))"
    using cw foldl_best_mono [OF o k2 refl] unfolding CombineWorst_monotone_def by blast
  have b3: "tighter ?P
      (foldl (\<lambda>acc b. best ?P b acc) (WorstDistance ?P)
         (map (\<lambda>c. CombineWorst ?P (SecondBound (Stat (nodes t c)))
             (2 * (FurthestDescendantDistance (nodes s n) - FurthestDescendantDistance (nodes s c))))
         (Children (nodes s n))))
      (foldl (\<lambda>acc b. best ?P b acc) (WorstDistance ?P)
         (map (\<lambda>c. CombineWorst ?P (SecondBound (Stat (nodes s c)))
             (2 * (FurthestDescendantDistance (nodes s n) - FurthestDescendantDistance (nodes s c))))
         (Children (nodes s n))))"
    by (intro foldl_best_mono [OF o] a2 refl)
  show ?thesis
    unfolding next_first_eq next_second_eq par ch pts fdd
    by (intro conjI best_mono [OF o] b1 b2 b3 b4 b5)
qed

lemma elem_at_last_row_Inr:
  assumes ok: "Mat_ok D" and e: "elem_at D (last_row D) p = Inr x"
  shows "x = kth_distance D p \<and> p < n_cols D"
proof -
  from e have lt: "last_row D < n_rows D" and p: "p < n_cols D"
    and x: "x = mem D ! (colptr D p + last_row D)"
    by (auto simp: elem_at_def split: if_splits)
  have pos: "0 < n_rows D"
  proof (rule ccontr)
    assume "\<not> 0 < n_rows D"
    then have "n_rows D = 0" by simp
    with lt show False by simp
  qed
  from ok pos have "last_row D = n_rows D - 1"
    by (intro last_row_ok) (simp_all add: Mat_ok_def)
  with x p show ?thesis by (simp add: kth_distance_def)
qed

lemma pointLoop_Inr_folds:
  assumes ok: "Mat_ok D"
  shows "pointLoop P D ps (b, w) = Inr res \<Longrightarrow>
         res = (foldl (\<lambda>acc d. best P d acc) b (map (kth_distance D) ps),
                foldl (worst P) w (map (kth_distance D) ps))"
proof (induction ps arbitrary: b w)
  case Nil
  then show ?case by simp
next
  case (Cons p ps)
  from Cons.prems obtain x where e: "elem_at D (last_row D) p = Inr x"
    by (cases "elem_at D (last_row D) p") (simp_all add: ebind_def)
  from elem_at_last_row_Inr [OF ok e] have x: "x = kth_distance D p" by simp
  from Cons.prems e have "pointLoop P D ps
      (if IsBetter P x b then x else b, if IsBetter P w x then x else w) = Inr res"
    by (simp add: ebind_def)
  from Cons.IH [OF this] show ?case by (simp add: x best_def worst_def)
qed

lemma CalculateBound_Inr:
  assumes ok: "Mat_ok (distances s)" and c: "CalculateBound R n s = Inr (b, s')"
  shows "(b, s') = five_bound_update FirstBound R n s"
proof -
  let ?P = "policy R"
  from c obtain res where pl: "pointLoop ?P (distances s) (Points (nodes s n))
      (WorstDistance ?P, BestDistance ?P) = Inr res"
    by (cases "pointLoop ?P (distances s) (Points (nodes s n)) (WorstDistance ?P, BestDistance ?P)")
      (simp_all add: CalculateBound_def Let_def ebind_def)
  from pointLoop_Inr_folds [OF ok pl] pl
  have PL: "pointLoop ?P (distances s) (Points (nodes s n)) (WorstDistance ?P, BestDistance ?P) =
      Inr (foldl (\<lambda>acc d. best ?P d acc) (WorstDistance ?P)
             (map (kth_distance (distances s)) (Points (nodes s n))),
           foldl (worst ?P) (BestDistance ?P)
             (map (kth_distance (distances s)) (Points (nodes s n))))"
    by simp
  have "CalculateBound R n s = Inr (five_bound_update FirstBound R n s)"
    by (simp add: CalculateBound_def five_bound_update_def PL childLoop_folds ebind_def Let_def
        best_def worst_def)
  with c show ?thesis by simp
qed

lemma pointLoop_Inr_range:
  "pointLoop P D ps (b, w) = Inr res \<Longrightarrow> \<forall>p \<in> set ps. p < n_cols D"
proof (induction ps arbitrary: b w)
  case Nil
  then show ?case by simp
next
  case (Cons p ps)
  from Cons.prems obtain x where e: "elem_at D (last_row D) p = Inr x"
    by (cases "elem_at D (last_row D) p") (simp_all add: ebind_def)
  then have p: "p < n_cols D" by (auto simp: elem_at_def split: if_splits)
  from Cons.prems e have "pointLoop P D ps
      (if IsBetter P x b then x else b, if IsBetter P w x then x else w) = Inr res"
    by (simp add: ebind_def)
  from Cons.IH [OF this] p show ?case by simp
qed

text \<open>\<^verbatim>\<open>CalculateBound\<close> returns only on a node whose points are columns of the distance
  matrix.\<close>

lemma CalculateBound_Inr_range:
  assumes c: "CalculateBound R n s = Inr (b, s')"
  shows "\<forall>p \<in> set (Points (nodes s n)). p < n_cols (distances s)"
proof -
  let ?P = "policy R"
  from c obtain res where pl: "pointLoop ?P (distances s) (Points (nodes s n))
      (WorstDistance ?P, BestDistance ?P) = Inr res"
    by (cases "pointLoop ?P (distances s) (Points (nodes s n)) (WorstDistance ?P, BestDistance ?P)")
      (simp_all add: CalculateBound_def Let_def ebind_def)
  then show ?thesis by (rule pointLoop_Inr_range)
qed

lemma update_Stat_simps:
  "distances (update_Stat n f s) = distances s"
  "neighbors (update_Stat n f s) = neighbors s"
  "nodes (update_Stat n f s) m =
     (if m = n then (nodes s n)\<lparr>Stat := f (Stat (nodes s n))\<rparr> else nodes s m)"
  by (simp_all add: update_Stat_def)

lemma search_step_tightens:
  assumes o: "IsBetter_ordering (policy R)" and cw: "CombineWorst_monotone (policy R)"
    and inv: "bounds_loose R s" and step: "search_step R s s'"
  shows "bounds_loose R s' \<and>
     (\<forall>n. tighter (policy R) (FirstBound (Stat (nodes s' n))) (FirstBound (Stat (nodes s n))) \<and>
          tighter (policy R) (SecondBound (Stat (nodes s' n))) (SecondBound (Stat (nodes s n))) \<and>
          tighter (policy R) (Bound (Stat (nodes s' n))) (Bound (Stat (nodes s n))))"
proof -
  let ?P = "policy R"
  let ?cols = "\<lambda>s n. \<forall>p \<in> set (Points (nodes s n)). p < n_cols (distances s)"
  from inv have okD: "Mat_ok (distances s)"
    and i1: "\<And>n. ?cols s n \<Longrightarrow> tighter ?P (next_first R n s) (FirstBound (Stat (nodes s n)))"
    and i2: "\<And>n. ?cols s n \<Longrightarrow> tighter ?P (next_second R n s) (SecondBound (Stat (nodes s n)))"
    and i3: "\<And>n. tighter ?P (best ?P (FirstBound (Stat (nodes s n))) (SecondBound (Stat (nodes s n))))
                 (Bound (Stat (nodes s n)))"
    by (simp_all add: bounds_loose_def)
  have refl: "\<And>a. tighter ?P a a" using o by (rule tighter_refl)
  note trans = tighter_trans [OF o]
  from step have
    "Mat_ok (distances s') \<and> same_tree s s' \<and> n_cols (distances s') = n_cols (distances s) \<and>
     (\<forall>p < n_cols (distances s).
        tighter ?P (kth_distance (distances s') p) (kth_distance (distances s) p)) \<and>
     tighter ?P (FirstBound (Stat (nodes s' n))) (FirstBound (Stat (nodes s n))) \<and>
     tighter ?P (SecondBound (Stat (nodes s' n))) (SecondBound (Stat (nodes s n))) \<and>
     tighter ?P (Bound (Stat (nodes s' n))) (Bound (Stat (nodes s n))) \<and>
     (?cols s n \<longrightarrow>
        tighter ?P (next_first R n s) (FirstBound (Stat (nodes s' n))) \<and>
        tighter ?P (next_second R n s) (SecondBound (Stat (nodes s' n)))) \<and>
     tighter ?P (best ?P (FirstBound (Stat (nodes s' n))) (SecondBound (Stat (nodes s' n))))
        (Bound (Stat (nodes s' n)))" for n
  proof cases
    case (calculate m b)
    from CalculateBound_Inr [OF okD calculate] have
      s': "s' = update_Stat m
        (\<lambda>st. st\<lparr>FirstBound := next_first R m s, SecondBound := next_second R m s,
                  Bound := best ?P (next_first R m s) (next_second R m s)\<rparr>) s"
      by (simp add: five_bound_update_next)
    from calculate have cm: "?cols s m" by (rule CalculateBound_Inr_range)
    note m1 = i1 [OF cm] and m2 = i2 [OF cm]
    have bnd: "tighter ?P (best ?P (next_first R m s) (next_second R m s)) (Bound (Stat (nodes s m)))"
      using trans [OF best_mono [OF o m1 m2] i3] .
    show ?thesis
      unfolding s' using okD m1 m2 i1 [of n] i2 [of n] i3 refl bnd
      by (simp add: update_Stat_simps same_tree_def)
  next
    case candidates
    from candidates(2) have eqs: "FirstBound (Stat (nodes s' n)) = FirstBound (Stat (nodes s n))"
      "SecondBound (Stat (nodes s' n)) = SecondBound (Stat (nodes s n))"
      "Bound (Stat (nodes s' n)) = Bound (Stat (nodes s n))" by simp_all
    show ?thesis
      unfolding eqs using candidates(1,3,4,5) i1 [of n] i2 [of n] i3 refl by simp
  qed
  note facts = this
  have pts: "Points (nodes s' n) = Points (nodes s n)" for n
    using facts [of n] by (simp add: same_tree_def)
  have cols: "?cols s' n \<longleftrightarrow> ?cols s n" for n
    using facts [of n] by (simp add: pts)
  have mono: "tighter ?P (next_first R n s') (next_first R n s) \<and>
      tighter ?P (next_second R n s') (next_second R n s)" if c: "?cols s n" for n
  proof (rule next_bounds_mono [OF o cw])
    show "same_tree s s'" using facts [of n] by simp
    show "\<forall>p \<in> set (Points (nodes s n)).
       tighter ?P (kth_distance (distances s') p) (kth_distance (distances s) p)"
      using facts [of n] c by simp
    show "\<forall>m. tighter ?P (FirstBound (Stat (nodes s' m))) (FirstBound (Stat (nodes s m))) \<and>
       tighter ?P (SecondBound (Stat (nodes s' m))) (SecondBound (Stat (nodes s m)))"
      using facts by simp
  qed
  have inv': "bounds_loose R s'"
    unfolding bounds_loose_def
  proof (intro conjI allI impI)
    show "Mat_ok (distances s')" using facts [of 0] by simp
  next
    fix n assume "?cols s' n"
    then have c: "?cols s n" by (simp only: cols)
    from mono [OF c] facts [of n] c
    show "tighter ?P (next_first R n s') (FirstBound (Stat (nodes s' n)))"
      by (elim conjE impE) (assumption, rule trans)
  next
    fix n assume "?cols s' n"
    then have c: "?cols s n" by (simp only: cols)
    from mono [OF c] facts [of n] c
    show "tighter ?P (next_second R n s') (SecondBound (Stat (nodes s' n)))"
      by (elim conjE impE) (assumption, rule trans)
  next
    fix n
    show "tighter ?P (best ?P (FirstBound (Stat (nodes s' n))) (SecondBound (Stat (nodes s' n))))
        (Bound (Stat (nodes s' n)))"
      using facts [of n] by simp
  qed
  from inv' facts show ?thesis by simp
qed

lemma search_run_tightens:
  assumes o: "IsBetter_ordering (policy R)" and cw: "CombineWorst_monotone (policy R)"
    and inv: "bounds_loose R s"
  shows "rtranclp (search_step R) s t \<Longrightarrow>
     bounds_loose R t \<and>
     (\<forall>n. tighter (policy R) (FirstBound (Stat (nodes t n))) (FirstBound (Stat (nodes s n))) \<and>
          tighter (policy R) (SecondBound (Stat (nodes t n))) (SecondBound (Stat (nodes s n))) \<and>
          tighter (policy R) (Bound (Stat (nodes t n))) (Bound (Stat (nodes s n))))"
proof (induction rule: rtranclp_induct)
  case base
  with inv tighter_refl [OF o] show ?case by simp
next
  case (step t u)
  from step.IH have invt: "bounds_loose R t"
    and st: "\<And>n. tighter (policy R) (FirstBound (Stat (nodes t n))) (FirstBound (Stat (nodes s n))) \<and>
          tighter (policy R) (SecondBound (Stat (nodes t n))) (SecondBound (Stat (nodes s n))) \<and>
          tighter (policy R) (Bound (Stat (nodes t n))) (Bound (Stat (nodes s n)))"
    by simp_all
  from search_step_tightens [OF o cw invt step.hyps(2)]
  have invu: "bounds_loose R u"
    and tu: "\<And>n. tighter (policy R) (FirstBound (Stat (nodes u n))) (FirstBound (Stat (nodes t n))) \<and>
          tighter (policy R) (SecondBound (Stat (nodes u n))) (SecondBound (Stat (nodes t n))) \<and>
          tighter (policy R) (Bound (Stat (nodes u n))) (Bound (Stat (nodes t n)))"
    by simp_all
  have "tighter (policy R) (FirstBound (Stat (nodes u n))) (FirstBound (Stat (nodes s n))) \<and>
        tighter (policy R) (SecondBound (Stat (nodes u n))) (SecondBound (Stat (nodes s n))) \<and>
        tighter (policy R) (Bound (Stat (nodes u n))) (Bound (Stat (nodes s n)))" for n
    using tu [of n] st [of n] by (elim conjE) (intro conjI; rule tighter_trans [OF o])
  with invu show ?case by simp
qed

lemma bounds_loose_initially:
  assumes o: "IsBetter_ordering (policy R)" and ok: "Mat_ok (distances s)"
    and w: "\<forall>n. FirstBound (Stat (nodes s n)) = WorstDistance (policy R) \<and>
                SecondBound (Stat (nodes s n)) = WorstDistance (policy R) \<and>
                Bound (Stat (nodes s n)) = WorstDistance (policy R)"
  shows "bounds_loose R s"
  unfolding bounds_loose_def
proof (intro conjI allI impI)
  show "Mat_ok (distances s)" by fact
  fix n
  have p4: "(case Parent (nodes s n) of Some p \<Rightarrow> FirstBound (Stat (nodes s p))
             | None \<Rightarrow> WorstDistance (policy R)) = WorstDistance (policy R)"
    using w by (simp split: option.splits)
  have p5: "(case Parent (nodes s n) of Some p \<Rightarrow> SecondBound (Stat (nodes s p))
             | None \<Rightarrow> WorstDistance (policy R)) = WorstDistance (policy R)"
    using w by (simp split: option.splits)
  show "tighter (policy R) (next_first R n s) (FirstBound (Stat (nodes s n)))"
    unfolding next_first_eq p4 using best_tighter2 [OF o] w by simp
  show "tighter (policy R) (next_second R n s) (SecondBound (Stat (nodes s n)))"
    unfolding next_second_eq p5 using best_tighter2 [OF o] w by simp
  show "tighter (policy R)
      (best (policy R) (FirstBound (Stat (nodes s n))) (SecondBound (Stat (nodes s n))))
      (Bound (Stat (nodes s n)))"
    using best_tighter2 [OF o] w by simp
qed

lemma bounds_run_tightens:
  assumes "IsBetter_ordering (policy R)" and "CombineWorst_monotone (policy R)"
    and "bounds_loose R s" and "rtranclp (search_step R) s t"
  shows "bounds_loose R t \<and>
     (\<forall>n. tighter (policy R) (FirstBound (Stat (nodes t n))) (FirstBound (Stat (nodes s n))) \<and>
          tighter (policy R) (SecondBound (Stat (nodes t n))) (SecondBound (Stat (nodes s n))) \<and>
          tighter (policy R) (Bound (Stat (nodes t n))) (Bound (Stat (nodes s n)))) \<and>
     (\<forall>n b t'. CalculateBound R n t = Inr (b, t') \<longrightarrow>
          Bound (Stat (nodes t' n)) = b \<and>
          tighter (policy R) (FirstBound (Stat (nodes t' n))) (FirstBound (Stat (nodes s n))) \<and>
          tighter (policy R) (SecondBound (Stat (nodes t' n))) (SecondBound (Stat (nodes s n))) \<and>
          tighter (policy R) (Bound (Stat (nodes t' n))) (Bound (Stat (nodes s n))))"
proof (intro conjI allI impI)
  note run = search_run_tightens [OF assms(1,2,3)]
  from run [OF assms(4)] show "bounds_loose R t" by simp
  fix n
  from run [OF assms(4)]
  show "tighter (policy R) (FirstBound (Stat (nodes t n))) (FirstBound (Stat (nodes s n)))"
    "tighter (policy R) (SecondBound (Stat (nodes t n))) (SecondBound (Stat (nodes s n)))"
    "tighter (policy R) (Bound (Stat (nodes t n))) (Bound (Stat (nodes s n)))"
    by simp_all
  fix b t'
  assume c: "CalculateBound R n t = Inr (b, t')"
  from run [OF assms(4)] have "Mat_ok (distances t)" by (simp add: bounds_loose_def)
  from CalculateBound_Inr [OF this c]
  show "Bound (Stat (nodes t' n)) = b"
    by (simp add: five_bound_update_next update_Stat_simps)
  from c have "search_step R t t'" by (rule search_step.calculate)
  with assms(4) have "rtranclp (search_step R) s t'" by (rule rtranclp.rtrancl_into_rtrancl)
  from run [OF this]
  show "tighter (policy R) (FirstBound (Stat (nodes t' n))) (FirstBound (Stat (nodes s n)))"
    "tighter (policy R) (SecondBound (Stat (nodes t' n))) (SecondBound (Stat (nodes s n)))"
    "tighter (policy R) (Bound (Stat (nodes t' n))) (Bound (Stat (nodes s n)))"
    by simp_all
qed

lemma BaseCase_nodes: "BaseCase R q r s = Inr (d, s') \<Longrightarrow> nodes s' = nodes s"
proof (cases "(sameSet R \<and> q = r) \<or> (lastQueryIndex s = q \<and> lastReferenceIndex s = r)")
  case True
  assume "BaseCase R q r s = Inr (d, s')"
  with True have "s' = s" by (auto simp: BaseCase_def split: if_splits)
  then show ?thesis by simp
next
  case False
  assume b: "BaseCase R q r s = Inr (d, s')"
  from False have "\<not> (sameSet R \<and> q = r)" "\<not> (lastQueryIndex s = q \<and> lastReferenceIndex s = r)"
    by simp_all
  from BaseCase_fresh_result [OF b this] show ?thesis by simp
qed

lemma kth_distance_last:
  assumes "Mat_ok D" "0 < n_rows D" "p < n_cols D"
  shows "kth_distance D p = last (column D p)"
proof -
  have l: "length (column D p) = n_rows D" using assms(1,3) by (rule length_column)
  with assms(2) have ne: "column D p \<noteq> []" by auto
  show ?thesis
    using nth_column [OF assms(1,3), of "n_rows D - 1"] assms(2)
    by (simp add: last_conv_nth [OF ne] l kth_distance_def)
qed

text \<open>A base case on sorted candidate lists is a step of the second kind.\<close>

lemma BaseCase_search_step:
  assumes ok: "results_ok s" and k: "0 < n_rows (distances s)"
    and q: "q < n_cols (distances s)"
    and ql: "q < length (querySet R)" and rl: "r < length (referenceSet R)"
    and rk: "SortDistance_ranks (policy R)" and ord: "IsBetter_ordering (policy R)"
    and srt: "lists_sorted (policy R) s"
    and b: "BaseCase R q r s = Inr (d, s')"
  shows "search_step R s s'"
proof (rule search_step.candidates)
  from BaseCase_step_sorted [OF ok q ql rl rk ord srt] b
  have ok': "results_ok s'" and nr: "n_rows (distances s') = n_rows (distances s)"
    and nc: "n_cols (distances s') = n_cols (distances s)"
    and tight: "\<forall>c < n_cols (distances s).
         \<not> IsBetter (policy R) (last (column (distances s) c)) (last (column (distances s') c))"
    by auto
  from ok ok' have okD: "Mat_ok (distances s)" and okD': "Mat_ok (distances s')"
    by (simp_all add: results_ok_def)
  from BaseCase_nodes [OF b] show "same_tree s s'" by (simp add: same_tree_def)
  from BaseCase_nodes [OF b]
  show "\<forall>n. FirstBound (Stat (nodes s' n)) = FirstBound (Stat (nodes s n)) \<and>
          SecondBound (Stat (nodes s' n)) = SecondBound (Stat (nodes s n)) \<and>
          Bound (Stat (nodes s' n)) = Bound (Stat (nodes s n))" by simp
  show "Mat_ok (distances s')" by fact
  show "n_cols (distances s') = n_cols (distances s)" by fact
  show "\<forall>p < n_cols (distances s).
        tighter (policy R) (kth_distance (distances s') p) (kth_distance (distances s) p)"
  proof (intro allI impI)
    fix p assume p: "p < n_cols (distances s)"
    from tight p show "tighter (policy R) (kth_distance (distances s') p) (kth_distance (distances s) p)"
      using kth_distance_last [OF okD k p] kth_distance_last [OF okD', of p] k p
      by (simp add: tighter_def nr nc)
  qed
qed

lemma NN_CombineWorst_monotone: "CombineWorst_monotone NearestNeighborSort"
  by (simp add: CombineWorst_monotone_def tighter_def NN_simps)

lemma ex_step_3_4: "search_step ex_Rules ex_state3 ex_state4"
proof (rule search_step.candidates)
  show "same_tree ex_state3 ex_state4" by (simp add: same_tree_def ex_state4_def)
  show "\<forall>n. FirstBound (Stat (nodes ex_state4 n)) = FirstBound (Stat (nodes ex_state3 n)) \<and>
          SecondBound (Stat (nodes ex_state4 n)) = SecondBound (Stat (nodes ex_state3 n)) \<and>
          Bound (Stat (nodes ex_state4 n)) = Bound (Stat (nodes ex_state3 n))"
    by (simp add: ex_state4_def)
  show "Mat_ok (distances ex_state4)" by (simp add: ex_state4_def ex_state_after_def Mat_ok_def)
  show "n_cols (distances ex_state4) = n_cols (distances ex_state3)"
    by (simp add: ex_state4_def ex_state_after_def ex3_simps ex_distances_ok)
  show "\<forall>p < n_cols (distances ex_state3).
      tighter (policy ex_Rules) (kth_distance (distances ex_state4) p)
        (kth_distance (distances ex_state3) p)"
  proof (intro allI impI)
    fix p assume "p < n_cols (distances ex_state3)"
    then have "p = 0 \<or> p = 1 \<or> p = 2 \<or> p = 3 \<or> p = 4"
      by (simp add: ex3_simps ex_distances_ok) arith
    then show "tighter (policy ex_Rules) (kth_distance (distances ex_state4) p)
        (kth_distance (distances ex_state3) p)"
      by (auto simp: tighter_def ex_Rules_simps NN_simps kth_distance_def ex_state4_def
          ex_state_after_def ex3_simps ex_state_def colptr_def)
  qed
qed

lemma ex4_CalculateBound_1: "\<exists>t'. CalculateBound ex_Rules 1 ex_state4 = Inr (7, t') \<and>
    FirstBound (Stat (nodes t' 1)) = 7 \<and> SecondBound (Stat (nodes t' 1)) = 8"
proof -
  have d: "distances ex_state4 = distances ex_state_after" by (simp add: ex_state4_def)
  have n: "nodes ex_state4 = nodes ex_state3" by (simp add: ex_state4_def)
  have k: "elem_at (distances ex_state_after) (last_row (distances ex_state_after)) 0 = Inr 7"
    "elem_at (distances ex_state_after) (last_row (distances ex_state_after)) (Suc 0) = Inr 6"
    by (simp_all add: last_row_def ex_state_after_def size_t_sub_def SIZE_MOD_def elem_at_def
        colptr_def)
  have lt: "(7::real) < DBL_MAX" "\<not> DBL_MAX < 7" "\<not> DBL_MAX + 2 < DBL_MAX"
    by (simp_all add: DBL_MAX_big DBL_MAX_not_less)
  show ?thesis
    by (simp add: CalculateBound_def d n ex3_simps ex_Rules_simps NN_simps ebind_def ex_stat_def
        DBL_MAX_cmp lt Let_def k update_Stat_def)
qed

text \<open>
  Claim C9.  Bounds never loosen within one search.  Start a search in a state whose
  nodes all carry the policy's worst distance as first bound, second bound and bound,
  and let it run by steps that are calls of \<^verbatim>\<open>CalculateBound\<close> or changes in which the
  candidate lists' worst distances only tighten.  If \<^verbatim>\<open>CalculateBound\<close> returns on a query
  node \<open>n\<close>, and later in the same run returns on \<open>n\<close> again, then the first bound, the
  second bound and the bound that the later call writes to the statistic of \<open>n\<close> are each
  at least as tight, under the policy's \<^verbatim>\<open>IsBetter\<close>, as those written by the earlier call;
  the bound written is in both cases the value returned.  Nothing is assumed of the nodes
  in the store other than their initial bounds: it may hold a reference tree whose points
  are not columns of the distance matrix.
\<close>

theorem bounds_never_loosen:
  assumes ord: "IsBetter_ordering (policy R)" and cw: "CombineWorst_monotone (policy R)"
    and okD: "Mat_ok (distances s0)"
    and init: "\<forall>n. FirstBound (Stat (nodes s0 n)) = WorstDistance (policy R) \<and>
                   SecondBound (Stat (nodes s0 n)) = WorstDistance (policy R) \<and>
                   Bound (Stat (nodes s0 n)) = WorstDistance (policy R)"
    and run1: "rtranclp (search_step R) s0 s1"
    and call1: "CalculateBound R n s1 = Inr (b1, s1')"
    and run2: "rtranclp (search_step R) s1' s2"
    and call2: "CalculateBound R n s2 = Inr (b2, s2')"
  shows "tighter (policy R) (FirstBound (Stat (nodes s2' n))) (FirstBound (Stat (nodes s1' n))) \<and>
         tighter (policy R) (SecondBound (Stat (nodes s2' n))) (SecondBound (Stat (nodes s1' n))) \<and>
         tighter (policy R) (Bound (Stat (nodes s2' n))) (Bound (Stat (nodes s1' n))) \<and>
         Bound (Stat (nodes s1' n)) = b1 \<and> Bound (Stat (nodes s2' n)) = b2 \<and>
         tighter (policy R) b2 b1"
proof -
  from ord okD init have inv0: "bounds_loose R s0" by (rule bounds_loose_initially)
  from bounds_run_tightens [OF ord cw inv0 run1]
  have inv1: "bounds_loose R s1" by (rule conjunct1)
  from bounds_run_tightens [OF ord cw inv0 run1, THEN conjunct2, THEN conjunct2,
      rule_format, OF call1]
  have b1: "Bound (Stat (nodes s1' n)) = b1" by (rule conjunct1)
  from call1 have "search_step R s1 s1'" by (rule search_step.calculate)
  then have "rtranclp (search_step R) s1 s1'" by (rule r_into_rtranclp)
  from bounds_run_tightens [OF ord cw inv1 this]
  have inv1': "bounds_loose R s1'" by (rule conjunct1)
  from bounds_run_tightens [OF ord cw inv1' run2, THEN conjunct2, THEN conjunct2,
      rule_format, OF call2]
  have t: "Bound (Stat (nodes s2' n)) = b2 \<and>
      tighter (policy R) (FirstBound (Stat (nodes s2' n))) (FirstBound (Stat (nodes s1' n))) \<and>
      tighter (policy R) (SecondBound (Stat (nodes s2' n))) (SecondBound (Stat (nodes s1' n))) \<and>
      tighter (policy R) (Bound (Stat (nodes s2' n))) (Bound (Stat (nodes s1' n)))" .
  with b1 show ?thesis by auto
qed

theorem bounds_never_loosen_witness:
  "IsBetter_ordering (policy ex_Rules) \<and> CombineWorst_monotone (policy ex_Rules) \<and>
   Mat_ok (distances ex_state2) \<and>
   FirstBound (Stat (nodes ex_state2 1)) = WorstDistance (policy ex_Rules) \<and>
   rtranclp (search_step ex_Rules) ex_state2 ex_state2 \<and>
   CalculateBound ex_Rules 1 ex_state2 = Inr (8, ex_state3) \<and>
   rtranclp (search_step ex_Rules) ex_state3 ex_state4 \<and>
   FirstBound (Stat (nodes ex_state3 1)) = 12 \<and> SecondBound (Stat (nodes ex_state3 1)) = 8 \<and>
   (\<exists>t'. CalculateBound ex_Rules 1 ex_state4 = Inr (7, t') \<and>
      FirstBound (Stat (nodes t' 1)) = 7 \<and> SecondBound (Stat (nodes t' 1)) = 8 \<and>
      tighter (policy ex_Rules) (FirstBound (Stat (nodes t' 1))) (FirstBound (Stat (nodes ex_state3 1))) \<and>
      tighter (policy ex_Rules) (SecondBound (Stat (nodes t' 1))) (SecondBound (Stat (nodes ex_state3 1))) \<and>
      tighter (policy ex_Rules) (Bound (Stat (nodes t' 1))) (Bound (Stat (nodes ex_state3 1))) \<and>
      Bound (Stat (nodes ex_state3 1)) = 8 \<and> Bound (Stat (nodes t' 1)) = 7) \<and>
   tighter (policy ex_Rules) 7 8"
proof -
  have o: "IsBetter_ordering (policy ex_Rules)" using NN_ordering by (simp add: ex_Rules_simps)
  have cw: "CombineWorst_monotone (policy ex_Rules)"
    using NN_CombineWorst_monotone by (simp add: ex_Rules_simps)
  have okD: "Mat_ok (distances ex_state2)" by (simp add: ex2_simps ex_distances_ok)
  have init: "\<forall>n. FirstBound (Stat (nodes ex_state2 n)) = WorstDistance (policy ex_Rules) \<and>
            SecondBound (Stat (nodes ex_state2 n)) = WorstDistance (policy ex_Rules) \<and>
            Bound (Stat (nodes ex_state2 n)) = WorstDistance (policy ex_Rules)"
    by (simp add: ex_state2_def ex_nodes2_def ex_node_def ex_stat_def ex_Rules_simps NN_simps)
  have r0: "rtranclp (search_step ex_Rules) ex_state2 ex_state2" by (rule rtranclp.rtrancl_refl)
  have r34: "rtranclp (search_step ex_Rules) ex_state3 ex_state4"
    using ex_step_3_4 by (rule r_into_rtranclp)
  from ex4_CalculateBound_1 obtain t' where
    c: "CalculateBound ex_Rules 1 ex_state4 = Inr (7, t')"
    and v: "FirstBound (Stat (nodes t' 1)) = 7" "SecondBound (Stat (nodes t' 1)) = 8"
    by blast
  note t = bounds_never_loosen [OF o cw okD init r0 ex2_CalculateBound_1 r34 c]
  have s3: "FirstBound (Stat (nodes ex_state3 1)) = 12" "SecondBound (Stat (nodes ex_state3 1)) = 8"
    by (simp_all add: ex3_simps)
  from init have i1: "FirstBound (Stat (nodes ex_state2 1)) = WorstDistance (policy ex_Rules)"
    by (elim allE conjE)
  from o cw okD i1 r0 ex2_CalculateBound_1 r34 s3 c v t show ?thesis
    by (intro conjI exI [of _ t']) (assumption | (elim conjE, assumption))+
qed

end
